theory Spec2Isabelle
  imports Complex_Main
begin

section \<open>The code format\<close>

text \<open>
  The server tests short codes with the regular expression literal
  \<^verbatim>\<open>/^[A-Za-z0-9]{6,8}$/\<close> (function \<^verbatim>\<open>isValidCode\<close>) and guards the redirect route with
  the same character class and bounds. The literal is embedded as a syntax tree; a
  matcher by derivatives gives \<^verbatim>\<open>RegExp.prototype.test\<close> for a pattern anchored at both
  ends. A character is compared by its code, as a range of a character class does.
  Strings are byte strings here: a character outside ASCII is one or more bytes above
  127, which no range of the class contains, as no range contains its UTF-16 code units.
\<close>

datatype regex =
    Fail
  | Empty
  | Range char char
  | Alt regex regex
  | Seq regex regex
  | Repeat regex nat nat

definition char_code :: "char \<Rightarrow> nat" where
  "char_code c = of_char c"

fun nullable :: "regex \<Rightarrow> bool" where
  "nullable Fail = False"
| "nullable Empty = True"
| "nullable (Range lo hi) = False"
| "nullable (Alt a b) = (nullable a \<or> nullable b)"
| "nullable (Seq a b) = (nullable a \<and> nullable b)"
| "nullable (Repeat r m n) = (m = 0 \<or> (nullable r \<and> m \<le> n))"

fun deriv :: "char \<Rightarrow> regex \<Rightarrow> regex" where
  "deriv c Fail = Fail"
| "deriv c Empty = Fail"
| "deriv c (Range lo hi) =
     (if char_code lo \<le> char_code c \<and> char_code c \<le> char_code hi then Empty else Fail)"
| "deriv c (Alt a b) = Alt (deriv c a) (deriv c b)"
| "deriv c (Seq a b) =
     (if nullable a then Alt (Seq (deriv c a) b) (deriv c b) else Seq (deriv c a) b)"
| "deriv c (Repeat r m n) =
     (if n = 0 then Fail else Seq (deriv c r) (Repeat r (m - 1) (n - 1)))"

text \<open>\<^verbatim>\<open>/^r$/.test(s)\<close>: the whole of \<open>s\<close> matches \<open>r\<close>.\<close>

fun regex_test :: "regex \<Rightarrow> string \<Rightarrow> bool" where
  "regex_test r [] = nullable r"
| "regex_test r (c # cs) = regex_test (deriv c r) cs"

text \<open>The class \<^verbatim>\<open>[A-Za-z0-9]\<close> and the pattern \<^verbatim>\<open>[A-Za-z0-9]{6,8}\<close>.\<close>

definition alnum_class :: regex where
  "alnum_class =
     Alt (Range CHR ''A'' CHR ''Z'') (Alt (Range CHR ''a'' CHR ''z'') (Range CHR ''0'' CHR ''9''))"

definition code_pattern :: regex where
  "code_pattern = Repeat alnum_class 6 8"

definition isValidCode :: "string \<Rightarrow> bool" where
  "isValidCode c = regex_test code_pattern c"

text \<open>The alphabet of \<^verbatim>\<open>generateCode\<close>, the constant \<^verbatim>\<open>chars\<close> of the source.\<close>

definition chars :: string where
  "chars = ''ABCDEFGHIJKLMNOPQRSTUVWXYZabcdefghijklmnopqrstuvwxyz0123456789''"

text \<open>
  The format in the words of the specification: six to eight characters, each one of the
  62 alphanumeric characters.
\<close>

definition alphanumeric :: "char \<Rightarrow> bool" where
  "alphanumeric c = (c \<in> set chars)"

definition matches_code_format :: "string \<Rightarrow> bool" where
  "matches_code_format s = (6 \<le> length s \<and> length s \<le> 8 \<and> list_all alphanumeric s)"

subsection \<open>What the matcher accepts\<close>

definition in_alnum :: "char \<Rightarrow> bool" where
  "in_alnum c =
     (char_code CHR ''A'' \<le> char_code c \<and> char_code c \<le> char_code CHR ''Z'' \<or>
      char_code CHR ''a'' \<le> char_code c \<and> char_code c \<le> char_code CHR ''z'' \<or>
      char_code CHR ''0'' \<le> char_code c \<and> char_code c \<le> char_code CHR ''9'')"

lemma regex_test_Fail: "regex_test Fail s = False"
  by (induction s) simp_all

lemma regex_test_Alt: "regex_test (Alt a b) s = (regex_test a s \<or> regex_test b s)"
  by (induction s arbitrary: a b) simp_all

lemma regex_test_Seq_Fail: "regex_test (Seq Fail r) s = False"
  by (induction s) simp_all

lemma regex_test_Seq_Empty: "regex_test (Seq Empty r) s = regex_test r s"
  by (cases s) (simp_all add: regex_test_Alt regex_test_Seq_Fail)

lemma regex_test_Seq_Alt:
  "regex_test (Seq (Alt a b) r) s = (regex_test (Seq a r) s \<or> regex_test (Seq b r) s)"
  by (induction s arbitrary: a b r) (auto simp: regex_test_Alt)

lemma regex_test_Seq_deriv_class:
  "regex_test (Seq (deriv c alnum_class) r) s = (in_alnum c \<and> regex_test r s)"
  by (simp add: alnum_class_def in_alnum_def regex_test_Seq_Alt regex_test_Seq_Empty
      regex_test_Seq_Fail)

lemma nullable_alnum_class: "\<not> nullable alnum_class"
  by (simp add: alnum_class_def)

lemma regex_test_Repeat_class:
  "regex_test (Repeat alnum_class m n) s =
     (m \<le> length s \<and> length s \<le> n \<and> list_all in_alnum s)"
proof (induction s arbitrary: m n)
  case Nil
  show ?case by (simp add: nullable_alnum_class)
next
  case (Cons c cs)
  show ?case
  proof (cases n)
    case 0
    then show ?thesis by (simp add: regex_test_Fail)
  next
    case (Suc k)
    then show ?thesis
      by (auto simp: regex_test_Seq_deriv_class Cons.IH)
  qed
qed

lemma chars_in_alnum: "c \<in> set chars \<Longrightarrow> in_alnum c"
  by (auto simp: chars_def in_alnum_def char_code_def)

lemma in_alnum_chars:
  assumes "in_alnum c"
  shows "c \<in> set chars"
proof -
  define n where "n = (of_char c :: nat)"
  from assms have "65 \<le> n \<and> n \<le> 90 \<or> 97 \<le> n \<and> n \<le> 122 \<or> 48 \<le> n \<and> n \<le> 57"
    by (simp add: in_alnum_def char_code_def n_def)
  then have "n \<in> set (map of_char chars)"
    unfolding chars_def by simp arith
  then obtain d where d: "d \<in> set chars" "n = of_char d"
    by auto
  then have "c = d"
    unfolding n_def by simp
  with d show ?thesis by simp
qed

lemma in_alnum_iff: "in_alnum c = alphanumeric c"
  using chars_in_alnum in_alnum_chars by (auto simp: alphanumeric_def)

lemma isValidCode_format: "isValidCode s = matches_code_format s"
  by (simp add: isValidCode_def code_pattern_def regex_test_Repeat_class
      matches_code_format_def in_alnum_iff list_all_iff)

lemma not_alphanumeric_dash: "\<not> alphanumeric CHR ''-''" "\<not> alphanumeric CHR ''_''"
  by (simp_all add: alphanumeric_def chars_def)

text \<open>
  C5. For every string \<open>s\<close>, \<open>isValidCode s\<close> holds if and only if \<open>s\<close> has six to eight
  characters, all of them among the 62 letters and digits. In particular a string of
  length 5 or 9 is rejected, a string containing \<open>-\<close> or \<open>_\<close> is rejected, and an
  alphanumeric string of length 6, 7 or 8 is accepted.
\<close>

theorem isValidCode_iff:
  "(isValidCode s \<longleftrightarrow> matches_code_format s) \<and>
   (length s = 5 \<or> length s = 9 \<longrightarrow> \<not> isValidCode s) \<and>
   (CHR ''-'' \<in> set s \<or> CHR ''_'' \<in> set s \<longrightarrow> \<not> isValidCode s) \<and>
   (list_all alphanumeric s \<and> (length s = 6 \<or> length s = 7 \<or> length s = 8) \<longrightarrow> isValidCode s)"
  using not_alphanumeric_dash
  by (auto simp: isValidCode_format matches_code_format_def list_all_iff)

theorem isValidCode_iff_witness:
  "\<not> isValidCode ''abc12'' \<and> \<not> isValidCode ''abc123456'' \<and>
   \<not> isValidCode ''abc-123'' \<and> \<not> isValidCode ''abc_123'' \<and>
   isValidCode ''abc123'' \<and> isValidCode ''Abc1234'' \<and> isValidCode ''ABCD5678''"
  using isValidCode_iff [of "''abc12''"] isValidCode_iff [of "''abc123456''"]
    isValidCode_iff [of "''abc-123''"] isValidCode_iff [of "''abc_123''"]
    isValidCode_iff [of "''abc123''"] isValidCode_iff [of "''Abc1234''"]
    isValidCode_iff [of "''ABCD5678''"]
  by (simp add: matches_code_format_def alphanumeric_def chars_def)

section \<open>The links table\<close>

text \<open>
  \<^verbatim>\<open>initDb\<close> creates one table:
  \<^verbatim>\<open>links (id SERIAL PRIMARY KEY, code VARCHAR(16) UNIQUE NOT NULL, url TEXT NOT NULL,
  created_at TIMESTAMPTZ NOT NULL DEFAULT NOW(), last_clicked_at TIMESTAMPTZ,
  click_count INTEGER NOT NULL DEFAULT 0)\<close>.
  A row is a record with one field per column (the column \<^verbatim>\<open>id\<close> is \<open>link_id\<close>), the
  nullable column an option. A time stamp is a clock reading. The state of the server is
  the table, in insertion order, the next value of the sequence behind \<^verbatim>\<open>id\<close>, and the
  number of calls of \<^verbatim>\<open>Math.random\<close> made so far.

  The backend rejects a statement in two ways in the model: the violation of
  \<^verbatim>\<open>UNIQUE (code)\<close>, SQLSTATE 23505, which the POST handler tells apart, and a value for
  \<open>click_count\<close> outside the range of \<^verbatim>\<open>INTEGER\<close>, SQLSTATE 22003. Any other failure of
  the backend is outside the model.
\<close>

type_synonym timestamp = nat

record link_row =
  link_id :: nat
  code :: string
  url :: string
  created_at :: timestamp
  last_clicked_at :: "timestamp option"
  click_count :: int

record state =
  links :: "link_row list"
  links_id_seq :: nat
  draws :: nat

definition init_state :: state where
  "init_state = \<lparr>links = [], links_id_seq = 1, draws = 0\<rparr>"

datatype sql_error = UniqueViolation | NumericValueOutOfRange

text \<open>\<^verbatim>\<open>SELECT ... FROM links WHERE code = $1\<close>: the rows of that code.\<close>

definition select_by_code :: "state \<Rightarrow> string \<Rightarrow> link_row list" where
  "select_by_code s c = filter (\<lambda>r. code r = c) (links s)"

text \<open>
  \<^verbatim>\<open>INSERT INTO links (code, url) VALUES ($1, $2) RETURNING ...\<close>: the row takes the next
  value of the sequence and the defaults of the other columns. The sequence advances
  also when the unique index rejects the row.
\<close>

definition insert_link :: "timestamp \<Rightarrow> string \<Rightarrow> string \<Rightarrow> state \<Rightarrow> (sql_error + link_row) \<times> state" where
  "insert_link now c u s =
     (let row = \<lparr>link_id = links_id_seq s, code = c, url = u, created_at = now,
                 last_clicked_at = None, click_count = 0\<rparr>;
          s' = s\<lparr>links_id_seq := links_id_seq s + 1\<rparr>
      in if select_by_code s c \<noteq> [] then (Inl UniqueViolation, s')
         else (Inr row, s'\<lparr>links := links s @ [row]\<rparr>))"

text \<open>\<^verbatim>\<open>DELETE FROM links WHERE code = $1 RETURNING id\<close>: the removed rows and the table left.\<close>

definition delete_by_code :: "string \<Rightarrow> state \<Rightarrow> link_row list \<times> state" where
  "delete_by_code c s =
     (select_by_code s c, s\<lparr>links := filter (\<lambda>r. code r \<noteq> c) (links s)\<rparr>)"

text \<open>
  \<^verbatim>\<open>UPDATE links SET click_count = $1, last_clicked_at = NOW() WHERE id = $2\<close>. The
  column \<open>click_count\<close> is a 32-bit \<^verbatim>\<open>INTEGER\<close>: the backend rejects the statement when
  the value of \<^verbatim>\<open>$1\<close> is outside its range and the table stays as it is. Otherwise
  \<open>set_click\<close> is what the statement does to the table.
\<close>

definition in_integer :: "int \<Rightarrow> bool" where
  "in_integer n = (- 2147483648 \<le> n \<and> n \<le> 2147483647)"

definition set_click :: "timestamp \<Rightarrow> int \<Rightarrow> nat \<Rightarrow> state \<Rightarrow> state" where
  "set_click now n i s =
     s\<lparr>links := map (\<lambda>r. if link_id r = i
                            then r\<lparr>click_count := n, last_clicked_at := Some now\<rparr>
                            else r) (links s)\<rparr>"

definition update_click :: "timestamp \<Rightarrow> int \<Rightarrow> nat \<Rightarrow> state \<Rightarrow> sql_error + state" where
  "update_click now n i s =
     (if in_integer n then Inr (set_click now n i s) else Inl NumericValueOutOfRange)"

text \<open>
  \<^verbatim>\<open>SELECT ... FROM links ORDER BY created_at DESC\<close>. The statement does not say in
  which order rows of one time stamp come; the model leaves them in the order of the
  table.
\<close>

definition select_all_newest_first :: "state \<Rightarrow> link_row list" where
  "select_all_newest_first s = sort_key (\<lambda>r. - int (created_at r)) (links s)"

text \<open>
  The constraints of the schema, \<^verbatim>\<open>PRIMARY KEY (id)\<close> fed by the sequence and
  \<^verbatim>\<open>UNIQUE (code)\<close>, and the sign of the counter.
\<close>

definition constraints :: "state \<Rightarrow> bool" where
  "constraints s =
     (distinct (map link_id (links s)) \<and> distinct (map code (links s)) \<and>
      list_all (\<lambda>r. link_id r < links_id_seq s) (links s))"

definition counts_nonneg :: "state \<Rightarrow> bool" where
  "counts_nonneg s = list_all (\<lambda>r. 0 \<le> click_count r) (links s)"

section \<open>Numbers of the platform\<close>

text \<open>
  A JavaScript number is an IEEE 754 double. \<^verbatim>\<open>Math.random()\<close> returns a double that is
  at least 0 and less than 1; the source multiplies it by 3 and by 62 and takes
  \<^verbatim>\<open>Math.floor\<close> of the product. The product of two doubles is the exact product rounded
  to the nearest double, a tie going to the double with the even significand.
  \<open>round_double p\<close> is that rounding for \<open>0 \<le> p\<close> below the range where doubles overflow:
  \<open>binade p\<close> is the power of two \<open>2\<^sup>e\<close> with \<open>2\<^sup>e \<le> p < 2\<^sup>e\<^sup>+\<^sup>1\<close>, not below
  \<open>2\<^sup>-\<^sup>1\<^sup>0\<^sup>2\<^sup>2\<close>, the doubles from \<open>2\<^sup>e\<close> on are the multiples of \<open>2\<^sup>e / 2\<^sup>5\<^sup>2\<close>, and \<open>p\<close>
  goes to the nearest multiple.
\<close>

definition round_half_even :: "real \<Rightarrow> int" where
  "round_half_even q =
     (let f = \<lfloor>q\<rfloor>; r = q - of_int f
      in if r < 1 / 2 then f else if 1 / 2 < r then f + 1 else if even f then f else f + 1)"

function binade_up :: "real \<Rightarrow> nat \<Rightarrow> real" where
  "binade_up p k = (if 2 ^ (k + 1) \<le> p \<and> k < 1023 then binade_up p (k + 1) else 2 ^ k)"
  by pat_completeness auto
termination
  by (relation "measure (\<lambda>(p, k). 1023 - k)") auto

function binade_down :: "real \<Rightarrow> nat \<Rightarrow> real" where
  "binade_down p k = (if p < 1 / 2 ^ k \<and> k < 1022 then binade_down p (k + 1) else 1 / 2 ^ k)"
  by pat_completeness auto
termination
  by (relation "measure (\<lambda>(p, k). 1022 - k)") auto

declare binade_up.simps [simp del]
declare binade_down.simps [simp del]

definition binade :: "real \<Rightarrow> real" where
  "binade p = (if 1 \<le> p then binade_up p 0 else binade_down p 1)"

definition round_double :: "real \<Rightarrow> real" where
  "round_double p =
     (if p = 0 then 0
      else (let u = binade p / 2 ^ 52 in of_int (round_half_even (p / u)) * u))"

text \<open>The operator \<^verbatim>\<open>*\<close> on two doubles that are not negative.\<close>

definition times_double :: "real \<Rightarrow> real \<Rightarrow> real" where
  "times_double x y = round_double (x * y)"

section \<open>Values of a request body\<close>

text \<open>
  \<^verbatim>\<open>express.json()\<close> hands the handler the parsed body, so the fields \<^verbatim>\<open>url\<close> and
  \<^verbatim>\<open>code\<close> are any JSON values, or absent. The handler looks at such a value in three
  ways: \<^verbatim>\<open>!value\<close> and \<^verbatim>\<open>if (value)\<close> take its truth value; \<^verbatim>\<open>new URL(value)\<close> and
  \<^verbatim>\<open>RegExp.prototype.test(value)\<close> take its conversion to a string, which throws for some
  objects; and the driver sends the value itself as the parameter of a statement, as the
  text its \<^verbatim>\<open>prepareValue\<close> gives. A string is its own conversion and its own parameter
  text. For the other values the two conversions belong to the platform and the driver
  and are taken from the environment.
\<close>

datatype json =
    JNull
  | JBool bool
  | JNumber real
  | JString string
  | JArray "json list"
  | JObject "(string \<times> json) list"

text \<open>The truth value of a field; \<open>None\<close> is \<^verbatim>\<open>undefined\<close>.\<close>

fun js_truthy :: "json option \<Rightarrow> bool" where
  "js_truthy None = False"
| "js_truthy (Some JNull) = False"
| "js_truthy (Some (JBool b)) = b"
| "js_truthy (Some (JNumber x)) = (x \<noteq> 0)"
| "js_truthy (Some (JString v)) = (v \<noteq> [])"
| "js_truthy (Some (JArray vs)) = True"
| "js_truthy (Some (JObject fs)) = True"

section \<open>The environment and the responses\<close>

text \<open>
  What the handlers take from outside the source: the \<^verbatim>\<open>URL\<close> constructor of the
  platform (\<open>url_protocol e v\<close> is \<open>None\<close> where \<^verbatim>\<open>new URL(v)\<close> throws for the string \<open>v\<close>,
  the \<^verbatim>\<open>protocol\<close> of the parsed URL otherwise); the variable \<^verbatim>\<open>BASE_URL\<close>;
  \<^verbatim>\<open>Math.random\<close>, the sequence of its results, a result being a pair \<open>(m, b)\<close> for the
  double \<open>m / 2\<^sup>b\<close>; the conversion of a value that is not a string to a string (\<open>None\<close>
  where it throws); and the parameter text the driver makes of such a value.
\<close>

record env =
  url_protocol :: "string \<Rightarrow> string option"
  BASE_URL :: string
  random :: "nat \<Rightarrow> nat \<times> nat"
  ToString :: "json \<Rightarrow> string option"
  prepareValue :: "json \<Rightarrow> string"

fun js_String :: "env \<Rightarrow> json \<Rightarrow> string option" where
  "js_String e (JString v) = Some v"
| "js_String e v = ToString e v"

fun pg_text :: "env \<Rightarrow> json \<Rightarrow> string" where
  "pg_text e (JString v) = v"
| "pg_text e v = prepareValue e v"

text \<open>
  The contract of \<^verbatim>\<open>Math.random\<close>: every result is a double (a significand below
  \<open>2\<^sup>5\<^sup>3\<close>, an exponent not below \<open>-1074\<close>) that is less than 1.
\<close>

definition unit_random :: "env \<Rightarrow> bool" where
  "unit_random e =
     (\<forall>n. case random e n of (m, b) \<Rightarrow> m < 2 ^ 53 \<and> b \<le> 1074 \<and> real m / 2 ^ b < 1)"

text \<open>The JSON object of a link in a response.\<close>

record link_json =
  json_code :: string
  json_url :: string
  createdAt :: timestamp
  lastClickedAt :: "timestamp option"
  clickCount :: int
  shortUrl :: "string option"

datatype response =
    Created link_json
  | OkLink link_json
  | OkLinks "link_json list"
  | NoContent
  | Redirect string
  | BadRequest string
  | NotFound
  | Conflict string
  | ServerError

fun status :: "response \<Rightarrow> nat" where
  "status (Created j) = 201"
| "status (OkLink j) = 200"
| "status (OkLinks js) = 200"
| "status NoContent = 204"
| "status (Redirect u) = 302"
| "status (BadRequest m) = 400"
| "status NotFound = 404"
| "status (Conflict m) = 409"
| "status ServerError = 500"

definition link_to_json :: "env \<Rightarrow> link_row \<Rightarrow> link_json" where
  "link_to_json e row =
     \<lparr>json_code = code row, json_url = url row, createdAt = created_at row,
      lastClickedAt = last_clicked_at row, clickCount = click_count row,
      shortUrl = (if BASE_URL e \<noteq> [] then Some (BASE_URL e @ ''/'' @ code row) else None)\<rparr>"

section \<open>Validation and generation of codes\<close>

text \<open>\<^verbatim>\<open>isValidUrl\<close> on a string.\<close>

definition isValidUrl :: "env \<Rightarrow> string \<Rightarrow> bool" where
  "isValidUrl e v =
     (case url_protocol e v of
        None \<Rightarrow> False
      | Some p \<Rightarrow> p = ''http:'' \<or> p = ''https:'')"

text \<open>\<^verbatim>\<open>Math.random()\<close>: the next result of the sequence.\<close>

definition Math_random :: "env \<Rightarrow> state \<Rightarrow> real \<times> state" where
  "Math_random e s =
     (case random e (draws s) of (m, b) \<Rightarrow> (real m / 2 ^ b, s\<lparr>draws := draws s + 1\<rparr>))"

text \<open>\<^verbatim>\<open>String.prototype.charAt\<close>: the empty string outside the string.\<close>

definition charAt :: "string \<Rightarrow> int \<Rightarrow> string" where
  "charAt str i = (if 0 \<le> i \<and> i < int (length str) then [str ! nat i] else [])"

text \<open>The loop of \<^verbatim>\<open>generateCode\<close>, from \<open>i\<close> with the characters drawn so far.\<close>

function generateCode_loop :: "env \<Rightarrow> int \<Rightarrow> int \<Rightarrow> string \<Rightarrow> state \<Rightarrow> string \<times> state" where
  "generateCode_loop e len i result s =
     (if i < len
      then (let (x, s') = Math_random e s
            in generateCode_loop e len (i + 1)
                 (result @ charAt chars \<lfloor>times_double x (real (length chars))\<rfloor>) s')
      else (result, s))"
  by pat_completeness auto
termination
  by (relation "measure (\<lambda>(e, len, i, result, s). nat (len - i))") auto

definition generateCode :: "env \<Rightarrow> state \<Rightarrow> string \<times> state" where
  "generateCode e s =
     (let (x, s') = Math_random e s;
          len = 6 + \<lfloor>times_double x 3\<rfloor>
      in generateCode_loop e len 0 [] s')"

text \<open>
  The ways an allocation ends without a code: the three of the specification, and the
  exception of a conversion to a string that throws.
\<close>

datatype alloc_error = InvalidFormat | Collision | ExhaustedAttempts | TypeError

text \<open>
  The loop of \<^verbatim>\<open>generateUniqueCode\<close>, from \<open>attempts\<close>. The error thrown after the tenth
  colliding code is the value \<open>ExhaustedAttempts\<close>.
\<close>

function generateUniqueCode_loop :: "env \<Rightarrow> nat \<Rightarrow> state \<Rightarrow> (alloc_error + string) \<times> state" where
  "generateUniqueCode_loop e attempts s =
     (if attempts < 10
      then (let (c, s') = generateCode e s
            in if length (select_by_code s' c) = 0 then (Inr c, s')
               else generateUniqueCode_loop e (attempts + 1) s')
      else (Inl ExhaustedAttempts, s))"
  by pat_completeness auto
termination
  by (relation "measure (\<lambda>(e, attempts, s). 10 - attempts)") auto

definition generateUniqueCode :: "env \<Rightarrow> state \<Rightarrow> (alloc_error + string) \<times> state" where
  "generateUniqueCode e s = generateUniqueCode_loop e 0 s"

section \<open>The handlers\<close>

text \<open>
  The body of \<^verbatim>\<open>POST /api/links\<close> as the handler receives it: the fields \<^verbatim>\<open>url\<close> and
  \<^verbatim>\<open>code\<close>, each absent or a JSON value.
\<close>

record request_body =
  raw_url :: "json option"
  raw_code :: "json option"

text \<open>
  The choice of \<^verbatim>\<open>finalCode\<close> in the POST handler. A code of the request that counts as
  true is tested as a string and looked up as the parameter text of the value itself;
  otherwise \<^verbatim>\<open>generateUniqueCode\<close> runs. The result is the text that goes into the
  column \<open>code\<close>.
\<close>

fun allocateUnique :: "env \<Rightarrow> json option \<Rightarrow> state \<Rightarrow> (alloc_error + string) \<times> state" where
  "allocateUnique e None s = generateUniqueCode e s"
| "allocateUnique e (Some v) s =
     (if js_truthy (Some v)
      then (case js_String e v of
              None \<Rightarrow> (Inl TypeError, s)
            | Some str \<Rightarrow>
                if \<not> isValidCode str then (Inl InvalidFormat, s)
                else if length (select_by_code s (pg_text e v)) > 0 then (Inl Collision, s)
                else (Inr (pg_text e v), s))
      else generateUniqueCode e s)"

fun alloc_error_response :: "alloc_error \<Rightarrow> response" where
  "alloc_error_response InvalidFormat = BadRequest ''Invalid code format''"
| "alloc_error_response Collision = Conflict ''Code already exists''"
| "alloc_error_response ExhaustedAttempts = ServerError"
| "alloc_error_response TypeError = ServerError"

text \<open>The \<^verbatim>\<open>catch\<close> of the POST handler: 409 for SQLSTATE 23505, 500 for any other error.\<close>

fun insert_error_response :: "sql_error \<Rightarrow> response" where
  "insert_error_response UniqueViolation = Conflict ''Code already exists''"
| "insert_error_response NumericValueOutOfRange = ServerError"

definition post_api_links :: "env \<Rightarrow> timestamp \<Rightarrow> request_body \<Rightarrow> state \<Rightarrow> response \<times> state" where
  "post_api_links e now b s =
     (case raw_url b of
        None \<Rightarrow> (BadRequest ''Invalid URL'', s)
      | Some u \<Rightarrow>
          if \<not> js_truthy (Some u) \<or>
             \<not> (case js_String e u of None \<Rightarrow> False | Some str \<Rightarrow> isValidUrl e str)
          then (BadRequest ''Invalid URL'', s)
          else (case allocateUnique e (raw_code b) s of
                  (Inl err, s1) \<Rightarrow> (alloc_error_response err, s1)
                | (Inr finalCode, s1) \<Rightarrow>
                    (case insert_link now finalCode (pg_text e u) s1 of
                       (Inl err, s2) \<Rightarrow> (insert_error_response err, s2)
                     | (Inr row, s2) \<Rightarrow> (Created (link_to_json e row), s2))))"

text \<open>
  The handler on a body whose fields are strings, which is what the client sends:
  \<open>post_links\<close> is \<open>post_api_links\<close> on such a body, and \<open>truthy\<close> the truth value of
  an optional string.
\<close>

record body =
  body_url :: "string option"
  body_code :: "string option"

definition raw_body :: "body \<Rightarrow> request_body" where
  "raw_body b =
     \<lparr>raw_url = map_option JString (body_url b), raw_code = map_option JString (body_code b)\<rparr>"

definition post_links :: "env \<Rightarrow> timestamp \<Rightarrow> body \<Rightarrow> state \<Rightarrow> response \<times> state" where
  "post_links e now b s = post_api_links e now (raw_body b) s"


definition get_links :: "env \<Rightarrow> state \<Rightarrow> response" where
  "get_links e s = OkLinks (map (link_to_json e) (select_all_newest_first s))"

definition get_link :: "env \<Rightarrow> string \<Rightarrow> state \<Rightarrow> response" where
  "get_link e c s =
     (case select_by_code s c of
        [] \<Rightarrow> NotFound
      | row # rest \<Rightarrow> OkLink (link_to_json e row))"

definition delete_link :: "string \<Rightarrow> state \<Rightarrow> response \<times> state" where
  "delete_link c s =
     (let (removed, s') = delete_by_code c s
      in if length removed = 0 then (NotFound, s') else (NoContent, s'))"

text \<open>
  The redirect handler sends two statements. The first,
  \<^verbatim>\<open>SELECT id, url, click_count FROM links WHERE code = $1\<close>, gives the handler its own
  copy of three columns; the second is \<open>update_click\<close> with the copied counter plus one.
  When the backend rejects the second, the \<^verbatim>\<open>catch\<close> of the handler answers 500.
  The model is the handler from its first line on. Which requests reach it is the work of
  the router: a GET whose path matches \<^verbatim>\<open>/:code([A-Za-z0-9]{6,8})\<close> and that no route
  registered earlier answers, as the health route answers \<^verbatim>\<open>/healthz\<close>.
\<close>

record link_sel =
  sel_id :: nat
  sel_url :: string
  sel_click_count :: int

definition select_click :: "state \<Rightarrow> string \<Rightarrow> link_sel list" where
  "select_click s c =
     map (\<lambda>r. \<lparr>sel_id = link_id r, sel_url = url r, sel_click_count = click_count r\<rparr>)
       (select_by_code s c)"

definition recordClickAndResolve :: "timestamp \<Rightarrow> string \<Rightarrow> state \<Rightarrow> response \<times> state" where
  "recordClickAndResolve now c s =
     (case select_click s c of
        [] \<Rightarrow> (NotFound, s)
      | link # rest \<Rightarrow>
          (case update_click now (sel_click_count link + 1) (sel_id link) s of
             Inl err \<Rightarrow> (ServerError, s)
           | Inr s' \<Rightarrow> (Redirect (sel_url link), s')))"

subsection \<open>Redirects in flight together\<close>

text \<open>
  The redirect handler gives up control at each \<^verbatim>\<open>await\<close>, so the statements of two
  requests can reach the backend in any order. A request in flight is a task: waiting for
  its SELECT, waiting for its UPDATE with the row it read, or answered. A schedule names,
  step by step, the task whose statement the backend executes next and the time.
\<close>

datatype task =
    AwaitSelect string
  | AwaitUpdate link_sel
  | Done response

fun task_step :: "timestamp \<Rightarrow> task \<Rightarrow> state \<Rightarrow> task \<times> state" where
  "task_step now (AwaitSelect c) s =
     (case select_click s c of
        [] \<Rightarrow> (Done NotFound, s)
      | link # rest \<Rightarrow> (AwaitUpdate link, s))"
| "task_step now (AwaitUpdate link) s =
     (case update_click now (sel_click_count link + 1) (sel_id link) s of
        Inl err \<Rightarrow> (Done ServerError, s)
      | Inr s' \<Rightarrow> (Done (Redirect (sel_url link)), s'))"
| "task_step now (Done r) s = (Done r, s)"

fun run_schedule :: "(nat \<times> timestamp) list \<Rightarrow> task list \<Rightarrow> state \<Rightarrow> task list \<times> state" where
  "run_schedule [] ts s = (ts, s)"
| "run_schedule ((i, now) # sched) ts s =
     (if i < length ts
      then (let (t', s') = task_step now (ts ! i) s
            in run_schedule sched (ts[i := t']) s')
      else run_schedule sched ts s)"

section \<open>Properties of the ledger operations\<close>

text \<open>
  The link stored under a code: the first row of the SELECT by code, which is what the
  handlers read as \<^verbatim>\<open>rows[0]\<close>.
\<close>

definition stored_link :: "state \<Rightarrow> string \<Rightarrow> link_row option" where
  "stored_link s c = (case select_by_code s c of [] \<Rightarrow> None | row # rest \<Rightarrow> Some row)"

text \<open>
  A concrete environment, row and table, for evaluating the theorems. Of the values that
  are not strings the examples use one, an array of one string \<open>x\<close>: its conversion to a
  string is \<open>x\<close> and its parameter text the array literal of the backend, \<open>x\<close> in double
  quotes and braces. The random results are the sixteenths \<open>(7 n + 3) mod 16\<close>.
\<close>

definition example_env :: env where
  "example_env =
     \<lparr>url_protocol = (\<lambda>v. if take 8 v = ''https://'' then Some ''https:''
                          else if take 7 v = ''http://'' then Some ''http:'' else None),
      BASE_URL = ''https://sho.rt'',
      random = (\<lambda>n. ((7 * n + 3) mod 16, 4)),
      ToString = (\<lambda>v. case v of JArray [JString x] \<Rightarrow> Some x | _ \<Rightarrow> None),
      prepareValue =
        (\<lambda>v. case v of JArray [JString x] \<Rightarrow> CHR ''{'' # CHR 0x22 # x @ [CHR 0x22, CHR ''}'']
              | _ \<Rightarrow> [])\<rparr>"

definition example_row :: link_row where
  "example_row =
     \<lparr>link_id = 1, code = ''abc123'', url = ''https://example.com/a'', created_at = 5,
      last_clicked_at = None, click_count = 0\<rparr>"

definition example_state :: state where
  "example_state = \<lparr>links = [example_row], links_id_seq = 2, draws = 0\<rparr>"

lemma select_by_code_set_click:
  "select_by_code (set_click now n i s) c =
     map (\<lambda>r. if link_id r = i then r\<lparr>click_count := n, last_clicked_at := Some now\<rparr> else r)
       (select_by_code s c)"
  by (simp add: select_by_code_def set_click_def filter_map o_def if_distrib cong: if_cong)

lemma stored_link_None: "stored_link s c = None \<longleftrightarrow> select_by_code s c = []"
  by (simp add: stored_link_def split: list.splits)

lemma stored_link_Some:
  "stored_link s c = Some row \<longleftrightarrow> (\<exists>rest. select_by_code s c = row # rest)"
  by (simp add: stored_link_def split: list.splits)

lemma stored_link_code:
  assumes "stored_link s c = Some row"
  shows "code row = c"
proof -
  from assms have "row \<in> set (select_by_code s c)"
    by (auto simp: stored_link_Some)
  then show ?thesis by (simp add: select_by_code_def)
qed

subsection \<open>One redirect\<close>

definition full_row :: link_row where
  "full_row = example_row\<lparr>click_count := 2147483647\<rparr>"

definition full_state :: state where
  "full_state = \<lparr>links = [full_row], links_id_seq = 2, draws = 0\<rparr>"

text \<open>
  C2, counterexample: a stored code whose counter is at the maximum of the
  \<^verbatim>\<open>INTEGER\<close> column. The code \<^verbatim>\<open>abc123\<close> is stored with \<open>click_count\<close> 2147483647, the
  UPDATE with 2147483648 is rejected, and the handler answers 500 and leaves the row as
  it was.
\<close>

theorem recordClickAndResolve_at_maximum:
  "stored_link full_state ''abc123'' = Some full_row \<and>
   click_count full_row = 2147483647 \<and>
   recordClickAndResolve 9 ''abc123'' full_state = (ServerError, full_state) \<and>
   status (fst (recordClickAndResolve 9 ''abc123'' full_state)) = 500"
  by (simp add: recordClickAndResolve_def select_click_def stored_link_def select_by_code_def
      update_click_def in_integer_def full_state_def full_row_def example_row_def)

text \<open>
  C2. For a code stored in the table whose counter plus one is still a value of the
  \<^verbatim>\<open>INTEGER\<close> column (a counter below 2147483647), one run of the redirect handler
  answers 302 with the stored url, and the link stored under the code afterwards is the
  same row with \<open>click_count\<close> one higher and \<open>last_clicked_at\<close> the time of the call. For
  a stored code whose counter plus one is outside the column the handler answers 500, and
  for a code that is not stored it answers 404; in both cases the state is the one before.
\<close>

theorem recordClickAndResolve_in_range:
  "(stored_link s c = Some row \<and> in_integer (click_count row + 1) \<longrightarrow>
      fst (recordClickAndResolve now c s) = Redirect (url row) \<and>
      status (fst (recordClickAndResolve now c s)) = 302 \<and>
      stored_link (snd (recordClickAndResolve now c s)) c =
        Some (row\<lparr>click_count := click_count row + 1, last_clicked_at := Some now\<rparr>)) \<and>
   (stored_link s c = Some row \<and> \<not> in_integer (click_count row + 1) \<longrightarrow>
      recordClickAndResolve now c s = (ServerError, s) \<and>
      status (fst (recordClickAndResolve now c s)) = 500) \<and>
   (stored_link s c = None \<longrightarrow>
      recordClickAndResolve now c s = (NotFound, s) \<and>
      status (fst (recordClickAndResolve now c s)) = 404)"
proof (intro conjI impI)
  assume a: "stored_link s c = Some row \<and> in_integer (click_count row + 1)"
  then obtain rest where r: "select_by_code s c = row # rest"
    by (auto simp: stored_link_Some)
  then have sel: "select_click s c =
      \<lparr>sel_id = link_id row, sel_url = url row, sel_click_count = click_count row\<rparr> #
      map (\<lambda>r. \<lparr>sel_id = link_id r, sel_url = url r, sel_click_count = click_count r\<rparr>) rest"
    by (simp add: select_click_def)
  show "fst (recordClickAndResolve now c s) = Redirect (url row)"
    using a by (simp add: recordClickAndResolve_def sel update_click_def)
  then show "status (fst (recordClickAndResolve now c s)) = 302"
    by simp
  show "stored_link (snd (recordClickAndResolve now c s)) c =
      Some (row\<lparr>click_count := click_count row + 1, last_clicked_at := Some now\<rparr>)"
    using a
    by (simp add: recordClickAndResolve_def sel update_click_def stored_link_def
        select_by_code_set_click r)
next
  assume a: "stored_link s c = Some row \<and> \<not> in_integer (click_count row + 1)"
  then obtain rest where r: "select_by_code s c = row # rest"
    by (auto simp: stored_link_Some)
  then show "recordClickAndResolve now c s = (ServerError, s)"
    using a by (simp add: recordClickAndResolve_def select_click_def update_click_def)
  then show "status (fst (recordClickAndResolve now c s)) = 500"
    by simp
next
  assume "stored_link s c = None"
  then have "select_click s c = []"
    by (simp add: stored_link_None select_click_def)
  then show "recordClickAndResolve now c s = (NotFound, s)"
    by (simp add: recordClickAndResolve_def)
  then show "status (fst (recordClickAndResolve now c s)) = 404"
    by simp
qed

theorem recordClickAndResolve_in_range_witness:
  "stored_link example_state ''abc123'' = Some example_row \<and>
   in_integer (click_count example_row + 1) \<and>
   fst (recordClickAndResolve 9 ''abc123'' example_state) = Redirect ''https://example.com/a'' \<and>
   stored_link (snd (recordClickAndResolve 9 ''abc123'' example_state)) ''abc123'' =
     Some (example_row\<lparr>click_count := 1, last_clicked_at := Some 9\<rparr>) \<and>
   stored_link full_state ''abc123'' = Some full_row \<and>
   \<not> in_integer (click_count full_row + 1) \<and>
   recordClickAndResolve 9 ''abc123'' full_state = (ServerError, full_state) \<and>
   stored_link example_state ''zzz999'' = None \<and>
   recordClickAndResolve 9 ''zzz999'' example_state = (NotFound, example_state)"
  using recordClickAndResolve_in_range [of example_state "''abc123''" example_row 9]
    recordClickAndResolve_in_range [of full_state "''abc123''" full_row 9]
    recordClickAndResolve_in_range [of example_state "''zzz999''" example_row 9]
  by (simp add: stored_link_def select_by_code_def in_integer_def example_state_def
      full_state_def full_row_def example_row_def)

subsection \<open>Deleting\<close>

lemma select_by_code_delete:
  "select_by_code (snd (delete_by_code c s)) c' = (if c' = c then [] else select_by_code s c')"
  by (auto simp: select_by_code_def delete_by_code_def filter_empty_conv intro: filter_cong)

lemma delete_by_code_absent:
  "select_by_code s c = [] \<Longrightarrow> snd (delete_by_code c s) = s"
proof -
  assume "select_by_code s c = []"
  then have "filter (\<lambda>r. code r \<noteq> c) (links s) = links s"
    by (auto simp: select_by_code_def filter_empty_conv filter_id_conv)
  then show ?thesis by (simp add: delete_by_code_def)
qed

lemma delete_link_response:
  "fst (delete_link c s) = (if select_by_code s c = [] then NotFound else NoContent)"
  by (simp add: delete_link_def delete_by_code_def)

lemma delete_link_state: "snd (delete_link c s) = snd (delete_by_code c s)"
  by (simp add: delete_link_def delete_by_code_def)

text \<open>
  C7. Deleting a code answers 204 exactly when a link was stored under it, and the link
  is gone afterwards; it answers 404 when none was stored, and the state is the one
  before. The answer is never an error: deleting twice answers 204 and then 404.
\<close>

theorem delete_link_twice:
  "(status (fst (delete_link c s)) = 204 \<longleftrightarrow> stored_link s c \<noteq> None) \<and>
   (status (fst (delete_link c s)) = 404 \<longleftrightarrow> stored_link s c = None) \<and>
   stored_link (snd (delete_link c s)) c = None \<and>
   (stored_link s c = None \<longrightarrow> delete_link c s = (NotFound, s)) \<and>
   (stored_link s c \<noteq> None \<longrightarrow>
      fst (delete_link c s) = NoContent \<and>
      delete_link c (snd (delete_link c s)) = (NotFound, snd (delete_link c s)))"
proof -
  have gone: "stored_link (snd (delete_link c s)) c = None"
    by (simp add: stored_link_None delete_link_state select_by_code_delete)
  have absent: "delete_link c t = (NotFound, t)" if "stored_link t c = None" for t
    using that
    by (simp add: prod_eq_iff delete_link_response delete_link_state stored_link_None
        delete_by_code_absent)
  show ?thesis
    using gone absent [of s] absent [OF gone]
    by (auto simp: delete_link_response stored_link_None)
qed

theorem delete_link_twice_witness:
  "stored_link example_state ''abc123'' \<noteq> None \<and>
   delete_link ''abc123'' example_state = (NoContent, example_state\<lparr>links := []\<rparr>) \<and>
   delete_link ''abc123'' (example_state\<lparr>links := []\<rparr>) = (NotFound, example_state\<lparr>links := []\<rparr>) \<and>
   stored_link example_state ''zzz999'' = None \<and>
   delete_link ''zzz999'' example_state = (NotFound, example_state)"
  using delete_link_twice [of "''abc123''" example_state]
    delete_link_twice [of "''zzz999''" example_state]
  by (simp add: stored_link_def select_by_code_def example_state_def example_row_def
      delete_link_def delete_by_code_def)

subsection \<open>The generators leave the table alone\<close>

declare generateCode_loop.simps [simp del]
declare generateUniqueCode_loop.simps [simp del]

definition same_table :: "state \<Rightarrow> state \<Rightarrow> bool" where
  "same_table s s' = (links s' = links s \<and> links_id_seq s' = links_id_seq s)"

lemma same_table_refl: "same_table s s"
  by (simp add: same_table_def)

lemma same_table_trans: "same_table s t \<Longrightarrow> same_table t u \<Longrightarrow> same_table s u"
  by (simp add: same_table_def)

lemma same_table_select: "same_table s s' \<Longrightarrow> select_by_code s' c = select_by_code s c"
  by (simp add: same_table_def select_by_code_def)

lemma Math_random_table: "same_table s (snd (Math_random e s))"
  by (simp add: same_table_def Math_random_def split: prod.splits)

lemma generateCode_loop_table: "same_table s (snd (generateCode_loop e len i result s))"
proof (induction e len i result s rule: generateCode_loop.induct)
  case (1 e len i result s)
  show ?case
  proof (cases "i < len")
    case True
    obtain x s' where m: "Math_random e s = (x, s')"
      by (cases "Math_random e s")
    have "same_table s s'"
      using Math_random_table [of s e] m by simp
    moreover have "same_table s'
        (snd (generateCode_loop e len (i + 1) (result @ charAt chars \<lfloor>times_double x (real (length chars))\<rfloor>) s'))"
      using "1.IH" [OF True refl m [symmetric]] .
    ultimately show ?thesis
      using True m by (subst generateCode_loop.simps) (auto intro: same_table_trans)
  next
    case False
    then show ?thesis
      by (subst generateCode_loop.simps) (simp add: same_table_refl)
  qed
qed

lemma generateCode_table: "same_table s (snd (generateCode e s))"
proof -
  obtain x s' where m: "Math_random e s = (x, s')"
    by (cases "Math_random e s")
  have "same_table s s'"
    using Math_random_table [of s e] m by simp
  then show ?thesis
    using generateCode_loop_table [of s' e "6 + \<lfloor>times_double x 3\<rfloor>" 0 "[]"] m
    by (auto simp: generateCode_def intro: same_table_trans)
qed

lemma generateUniqueCode_loop_table: "same_table s (snd (generateUniqueCode_loop e attempts s))"
proof (induction e attempts s rule: generateUniqueCode_loop.induct)
  case (1 e attempts s)
  show ?case
  proof (cases "attempts < 10")
    case True
    obtain c s' where g: "generateCode e s = (c, s')"
      by (cases "generateCode e s")
    have t: "same_table s s'"
      using generateCode_table [of s e] g by simp
    show ?thesis
    proof (cases "length (select_by_code s' c) = 0")
      case True
      with \<open>attempts < 10\<close> g t show ?thesis
        by (subst generateUniqueCode_loop.simps) simp
    next
      case False
      have "same_table s' (snd (generateUniqueCode_loop e (attempts + 1) s'))"
        using "1.IH" [OF \<open>attempts < 10\<close> refl g [symmetric] False] .
      with \<open>attempts < 10\<close> g t False show ?thesis
        by (subst generateUniqueCode_loop.simps) (auto intro: same_table_trans)
    qed
  next
    case False
    then show ?thesis
      by (subst generateUniqueCode_loop.simps) (simp add: same_table_refl)
  qed
qed

lemma allocateUnique_table: "same_table s (snd (allocateUnique e p s))"
  by (cases p)
    (simp_all add: generateUniqueCode_def generateUniqueCode_loop_table same_table_refl
      split: option.splits)


subsection \<open>Creating\<close>

lemma isValidCode_nonempty: "isValidCode c \<Longrightarrow> c \<noteq> []"
  by (auto simp: isValidCode_format matches_code_format_def)

lemma insert_link_free:
  "select_by_code s c = [] \<Longrightarrow>
   insert_link now c u s =
     (Inr \<lparr>link_id = links_id_seq s, code = c, url = u, created_at = now,
           last_clicked_at = None, click_count = 0\<rparr>,
      s\<lparr>links_id_seq := links_id_seq s + 1,
        links := links s @ [\<lparr>link_id = links_id_seq s, code = c, url = u, created_at = now,
           last_clicked_at = None, click_count = 0\<rparr>]\<rparr>)"
  by (simp add: insert_link_def Let_def)

lemma insert_link_taken:
  "select_by_code s c \<noteq> [] \<Longrightarrow>
   insert_link now c u s = (Inl UniqueViolation, s\<lparr>links_id_seq := links_id_seq s + 1\<rparr>)"
  by (simp add: insert_link_def Let_def)

lemma post_links_invalid_url:
  "body_url b = None \<or> body_url b = Some [] \<or> (\<exists>u. body_url b = Some u \<and> \<not> isValidUrl e u) \<Longrightarrow>
   post_links e now b s = (BadRequest ''Invalid URL'', s)"
  by (auto simp: post_links_def post_api_links_def raw_body_def split: option.splits)

lemma post_links_valid_url:
  "body_url b = Some u \<Longrightarrow> u \<noteq> [] \<Longrightarrow> isValidUrl e u \<Longrightarrow>
   post_links e now b s =
     (case allocateUnique e (map_option JString (body_code b)) s of
        (Inl err, s1) \<Rightarrow> (alloc_error_response err, s1)
      | (Inr finalCode, s1) \<Rightarrow>
          (case insert_link now finalCode u s1 of
             (Inl err, s2) \<Rightarrow> (insert_error_response err, s2)
           | (Inr row, s2) \<Rightarrow> (Created (link_to_json e row), s2)))"
  by (simp add: post_links_def post_api_links_def raw_body_def split: prod.splits sum.splits)

lemma post_links_given_code:
  assumes "body_url b = Some u" "u \<noteq> []" "isValidUrl e u" "body_code b = Some c" "isValidCode c"
  shows "post_links e now b s =
     (if select_by_code s c \<noteq> [] then (Conflict ''Code already exists'', s)
      else (Created (link_to_json e \<lparr>link_id = links_id_seq s, code = c, url = u,
                created_at = now, last_clicked_at = None, click_count = 0\<rparr>),
            s\<lparr>links_id_seq := links_id_seq s + 1,
              links := links s @ [\<lparr>link_id = links_id_seq s, code = c, url = u,
                created_at = now, last_clicked_at = None, click_count = 0\<rparr>]\<rparr>))"
  using assms isValidCode_nonempty [of c]
  by (simp add: post_links_valid_url insert_link_free)

lemma post_links_created_given:
  assumes ok: "post_links e now b s = (Created j, s1)"
    and b: "body_url b = Some u" "body_code b = Some c" and c: "isValidCode c"
  shows "select_by_code s c = [] \<and>
     j = link_to_json e \<lparr>link_id = links_id_seq s, code = c, url = u,
            created_at = now, last_clicked_at = None, click_count = 0\<rparr> \<and>
     s1 = s\<lparr>links_id_seq := links_id_seq s + 1,
            links := links s @ [\<lparr>link_id = links_id_seq s, code = c, url = u,
              created_at = now, last_clicked_at = None, click_count = 0\<rparr>]\<rparr>"
proof -
  have u: "u \<noteq> [] \<and> isValidUrl e u"
  proof (rule ccontr)
    assume "\<not> (u \<noteq> [] \<and> isValidUrl e u)"
    then have "post_links e now b s = (BadRequest ''Invalid URL'', s)"
      using b by (intro post_links_invalid_url) auto
    with ok show False by simp
  qed
  show ?thesis
    using ok post_links_given_code [of b u e c now s] b c u
    by (auto split: if_splits)
qed

lemma select_by_code_appended:
  "select_by_code s c = [] \<Longrightarrow> code row = c \<Longrightarrow>
   select_by_code (s\<lparr>links_id_seq := n, links := links s @ [row]\<rparr>) c = [row]"
  by (simp add: select_by_code_def)

text \<open>
  C3. Let \<open>c\<close> be a valid code and let a first \<^verbatim>\<open>POST /api/links\<close> with \<open>c\<close> and \<open>url1\<close>
  answer 201. Then a second POST with the same code and any url \<open>url2\<close> (a url the handler takes:
  not empty, \<^verbatim>\<open>http:\<close> or \<^verbatim>\<open>https:\<close>) answers 409 and leaves the state as it was: the link
  stored under \<open>c\<close> still has \<open>url1\<close>, and reading it gives the object the first call
  returned.
\<close>

theorem post_links_duplicate:
  assumes "isValidCode c"
    and "post_links e now \<lparr>body_url = Some url1, body_code = Some c\<rparr> s = (Created j, s1)"
    and "url2 \<noteq> []" and "isValidUrl e url2"
  shows "post_links e now2 \<lparr>body_url = Some url2, body_code = Some c\<rparr> s1 =
           (Conflict ''Code already exists'', s1) \<and>
         status (fst (post_links e now2 \<lparr>body_url = Some url2, body_code = Some c\<rparr> s1)) = 409 \<and>
         map_option url (stored_link s1 c) = Some url1 \<and>
         get_link e c s1 = OkLink j \<and> json_url j = url1"
proof -
  let ?row = "\<lparr>link_id = links_id_seq s, code = c, url = url1,
            created_at = now, last_clicked_at = None, click_count = 0\<rparr>"
  from post_links_created_given [OF assms(2) _ _ assms(1), of url1]
  have free: "select_by_code s c = []" and j: "j = link_to_json e ?row"
    and s1: "s1 = s\<lparr>links_id_seq := links_id_seq s + 1, links := links s @ [?row]\<rparr>"
    by simp_all
  have sel: "select_by_code s1 c = [?row]"
    unfolding s1 using free by (intro select_by_code_appended) simp_all
  have second: "post_links e now2 \<lparr>body_url = Some url2, body_code = Some c\<rparr> s1 =
      (Conflict ''Code already exists'', s1)"
    using post_links_given_code [of "\<lparr>body_url = Some url2, body_code = Some c\<rparr>" url2 e c now2 s1]
      assms sel by simp
  show ?thesis
    using second sel j by (simp add: stored_link_def get_link_def link_to_json_def)
qed


definition example_json :: link_json where
  "example_json =
     \<lparr>json_code = ''abc123'', json_url = ''https://example.com/a'', createdAt = 5,
      lastClickedAt = None, clickCount = 0, shortUrl = Some ''https://sho.rt/abc123''\<rparr>"

lemma example_code_valid: "isValidCode ''abc123''"
  by (simp add: isValidCode_format matches_code_format_def alphanumeric_def chars_def)

lemma example_code_invalid: "\<not> isValidCode ''abc-123''"
  by (simp add: isValidCode_format matches_code_format_def alphanumeric_def chars_def)

lemma example_urls_valid:
  "isValidUrl example_env ''https://example.com/a''"
  "isValidUrl example_env ''https://example.com/b''"
  "\<not> isValidUrl example_env ''ftp://example.com/a''"
  by (simp_all add: isValidUrl_def example_env_def)

lemma example_create:
  "post_links example_env 5 \<lparr>body_url = Some ''https://example.com/a'', body_code = Some ''abc123''\<rparr>
     init_state = (Created example_json, example_state)"
  using post_links_given_code [of "\<lparr>body_url = Some ''https://example.com/a'', body_code = Some ''abc123''\<rparr>"
      "''https://example.com/a''" example_env "''abc123''" 5 init_state]
    example_code_valid example_urls_valid(1)
  by (simp add: select_by_code_def init_state_def link_to_json_def example_json_def
      example_state_def example_row_def example_env_def)

theorem post_links_duplicate_witness:
  "isValidCode ''abc123'' \<and>
   post_links example_env 5 \<lparr>body_url = Some ''https://example.com/a'', body_code = Some ''abc123''\<rparr>
     init_state = (Created example_json, example_state) \<and>
   isValidUrl example_env ''https://example.com/b'' \<and>
   post_links example_env 6 \<lparr>body_url = Some ''https://example.com/b'', body_code = Some ''abc123''\<rparr>
     example_state = (Conflict ''Code already exists'', example_state) \<and>
   map_option url (stored_link example_state ''abc123'') = Some ''https://example.com/a'' \<and>
   get_link example_env ''abc123'' example_state = OkLink example_json"
  using post_links_duplicate [OF example_code_valid example_create _ example_urls_valid(2), of 6]
    example_code_valid example_create example_urls_valid(2)
  by simp

text \<open>
  An empty string for the code is for the handler no code at all: its test
  \<^verbatim>\<open>if (finalCode)\<close> sends it to the generator, as the client does with
  \<^verbatim>\<open>code.trim() || undefined\<close>.
\<close>

lemma post_links_empty_code:
  "body_code b = Some [] \<Longrightarrow> post_links e now b s = post_links e now (b\<lparr>body_code := None\<rparr>) s"
  by (simp add: post_links_def post_api_links_def raw_body_def split: option.splits)







subsection \<open>What an operation leaves alone\<close>

definition example_row_b :: link_row where
  "example_row_b =
     \<lparr>link_id = 2, code = ''xyz7890'', url = ''https://example.com/b'', created_at = 6,
      last_clicked_at = Some 7, click_count = 3\<rparr>"

definition example_state_two :: state where
  "example_state_two = \<lparr>links = [example_row, example_row_b], links_id_seq = 3, draws = 0\<rparr>"

lemma post_links_links: "\<exists>new. links (snd (post_links e now b s)) = links s @ new"
proof (cases "body_url b = None \<or> body_url b = Some [] \<or> (\<exists>u. body_url b = Some u \<and> \<not> isValidUrl e u)")
  case True
  then show ?thesis
    by (simp add: post_links_invalid_url)
next
  case False
  then obtain u where u: "body_url b = Some u" "u \<noteq> []" "isValidUrl e u"
    by auto
  obtain r s1 where a: "allocateUnique e (map_option JString (body_code b)) s = (r, s1)"
    by (cases "allocateUnique e (map_option JString (body_code b)) s")
  have t: "links s1 = links s"
    using allocateUnique_table [of s e "map_option JString (body_code b)"] a by (simp add: same_table_def)
  show ?thesis
  proof (cases r)
    case (Inl err)
    then show ?thesis
      using u a t by (simp add: post_links_valid_url)
  next
    case (Inr c)
    show ?thesis
    proof (cases "select_by_code s1 c = []")
      case True
      then show ?thesis
        using u a t Inr by (simp add: post_links_valid_url insert_link_free)
    next
      case False
      then show ?thesis
        using u a t Inr by (simp add: post_links_valid_url insert_link_taken)
    qed
  qed
qed

lemma link_id_inj:
  "distinct (map link_id xs) \<Longrightarrow> r \<in> set xs \<Longrightarrow> r' \<in> set xs \<Longrightarrow> link_id r = link_id r' \<Longrightarrow> r = r'"
  by (auto simp: distinct_map dest: inj_onD)

lemma set_click_other:
  assumes "constraints s" and "row \<in> set (links s)" and "code row \<noteq> c'"
  shows "select_by_code (set_click now n (link_id row) s) c' = select_by_code s c'"
proof -
  have "r \<in> set (select_by_code s c') \<Longrightarrow> link_id r \<noteq> link_id row" for r
    using assms link_id_inj [of "links s" r row]
    by (auto simp: constraints_def select_by_code_def)
  then have "map (\<lambda>r. if link_id r = link_id row
        then r\<lparr>click_count := n, last_clicked_at := Some now\<rparr> else r) (select_by_code s c') =
      select_by_code s c'"
    by (simp add: map_idI)
  then show ?thesis
    by (simp add: select_by_code_set_click)
qed

text \<open>
  C10. Under the constraints of the schema, a redirect of \<open>c\<close> leaves the link stored
  under every other code \<open>c'\<close> as it was, in all its columns; so does deleting \<open>c\<close>; and a
  POST, whatever its body, leaves every row of the table in place and unchanged (it can
  only add one row at the end).
\<close>

theorem operations_frame:
  "(constraints s \<and> c' \<noteq> c \<longrightarrow>
      stored_link (snd (recordClickAndResolve now c s)) c' = stored_link s c') \<and>
   (c' \<noteq> c \<longrightarrow> stored_link (snd (delete_link c s)) c' = stored_link s c') \<and>
   take (length (links s)) (links (snd (post_links e now b s))) = links s"
proof (intro conjI impI)
  assume a: "constraints s \<and> c' \<noteq> c"
  show "stored_link (snd (recordClickAndResolve now c s)) c' = stored_link s c'"
  proof (cases "select_by_code s c")
    case Nil
    then show ?thesis
      by (simp add: recordClickAndResolve_def select_click_def)
  next
    case (Cons row rest)
    then have "row \<in> set (select_by_code s c)"
      by simp
    then have row: "row \<in> set (links s)" "code row \<noteq> c'"
      using a by (auto simp: select_by_code_def)
    have "select_by_code (snd (recordClickAndResolve now c s)) c' = select_by_code s c'"
      using set_click_other [OF _ row, of now "click_count row + 1"] a Cons
      by (simp add: recordClickAndResolve_def select_click_def update_click_def)
    then show ?thesis
      by (simp add: stored_link_def)
  qed
next
  assume "c' \<noteq> c"
  then show "stored_link (snd (delete_link c s)) c' = stored_link s c'"
    by (simp add: stored_link_def delete_link_state select_by_code_delete)
next
  obtain new where "links (snd (post_links e now b s)) = links s @ new"
    using post_links_links by blast
  then show "take (length (links s)) (links (snd (post_links e now b s))) = links s"
    by simp
qed


theorem operations_frame_witness:
  "constraints example_state_two \<and>
   stored_link example_state_two ''xyz7890'' = Some example_row_b \<and>
   stored_link (snd (recordClickAndResolve 9 ''abc123'' example_state_two)) ''xyz7890'' =
     Some example_row_b \<and>
   stored_link (snd (delete_link ''abc123'' example_state_two)) ''xyz7890'' = Some example_row_b \<and>
   take (length (links example_state_two))
     (links (snd (post_links example_env 9
        \<lparr>body_url = Some ''https://example.com/c'', body_code = None\<rparr> example_state_two))) =
     [example_row, example_row_b]"
  using operations_frame [where s = example_state_two and c = "''abc123''" and c' = "''xyz7890''"
      and now = 9 and e = example_env
      and b = "\<lparr>body_url = Some ''https://example.com/c'', body_code = None\<rparr>"]
  by (simp add: constraints_def stored_link_def select_by_code_def example_state_two_def
      example_row_def example_row_b_def)

subsection \<open>Allocating a code\<close>

text \<open>
  The codes \<^verbatim>\<open>generateCode\<close> returns when it is called again and again from a state:
  \<open>after_generated e k s\<close> is the state after \<open>k\<close> calls and \<open>nth_generated e s k\<close> the
  code of the call after them (counted from 0).
\<close>

fun after_generated :: "env \<Rightarrow> nat \<Rightarrow> state \<Rightarrow> state" where
  "after_generated e 0 s = s"
| "after_generated e (Suc n) s = after_generated e n (snd (generateCode e s))"

definition nth_generated :: "env \<Rightarrow> state \<Rightarrow> nat \<Rightarrow> string" where
  "nth_generated e s k = fst (generateCode e (after_generated e k s))"

lemma length_chars: "length chars = 62"
  by (simp add: chars_def)

text \<open>
  The product of a double below 1 and a whole number \<open>n\<close> from 1 to \<open>2\<^sup>5\<^sup>2\<close>, rounded to
  a double, is still below \<open>n\<close>: its floor is one of \<open>0, \<dots>, n - 1\<close>. The rounding can
  reach the next whole number from below, as it does for \<^verbatim>\<open>0.6666666666666666 * 3\<close>,
  which is 2, but it cannot reach \<open>n\<close>.
\<close>

lemma times_double_rounds_up:
  "\<lfloor>times_double (6004799503160661 / 2 ^ 53) 3\<rfloor> = 2"
  "\<lfloor>(6004799503160661 / 2 ^ 53) * (3::real)\<rfloor> = 1"
  "\<lfloor>times_double (1162219258676257 / 2 ^ 52) 62\<rfloor> = 16"
  "\<lfloor>(1162219258676257 / 2 ^ 52) * (62::real)\<rfloor> = 15"
  by (simp_all add: times_double_def round_double_def binade_def binade_up.simps
      binade_down.simps round_half_even_def Let_def)

lemma binade_up_power: "\<exists>j. binade_up p k = 2 ^ j"
proof (induction p k rule: binade_up.induct)
  case (1 p k)
  then show ?case
    by (subst binade_up.simps) auto
qed

lemma binade_up_le: "2 ^ k \<le> p \<Longrightarrow> binade_up p k \<le> p"
proof (induction p k rule: binade_up.induct)
  case (1 p k)
  then show ?case
    by (subst binade_up.simps) auto
qed

lemma binade_down_power: "\<exists>j\<ge>k. binade_down p k = 1 / 2 ^ j"
proof (induction p k rule: binade_down.induct)
  case (1 p k)
  show ?case
  proof (cases "p < 1 / 2 ^ k \<and> k < 1022")
    case True
    with 1 obtain j where "j \<ge> k + 1" "binade_down p (k + 1) = 1 / 2 ^ j"
      by blast
    with True show ?thesis
      by (subst binade_down.simps) (auto intro: exI [of _ j])
  next
    case False
    then show ?thesis
      by (subst binade_down.simps) auto
  qed
qed

lemma round_half_even_nonneg: "0 \<le> q \<Longrightarrow> 0 \<le> round_half_even q"
  by (auto simp: round_half_even_def Let_def)

lemma round_half_even_below:
  assumes "q < of_int N - 1 / 2"
  shows "round_half_even q \<le> N - 1"
proof -
  have f: "\<lfloor>q\<rfloor> \<le> N - 1"
    using assms by linarith
  show ?thesis
  proof (cases "\<lfloor>q\<rfloor> = N - 1")
    case True
    then have "q - of_int \<lfloor>q\<rfloor> < 1 / 2"
      using assms by simp
    then show ?thesis
      using True by (simp add: round_half_even_def Let_def)
  next
    case False
    with f have "\<lfloor>q\<rfloor> + 1 \<le> N - 1"
      by simp
    then show ?thesis
      using f by (auto simp: round_half_even_def Let_def)
  qed
qed

lemma below_one_double:
  assumes "m < 2 ^ 53" and "real m / 2 ^ b < 1"
  shows "real m / 2 ^ b \<le> 1 - 1 / 2 ^ 53"
proof (cases "b \<le> 53")
  case True
  from assms(2) have "real m < 2 ^ b"
    by (simp add: divide_less_eq)
  then have "m < 2 ^ b"
    by (metis of_nat_less_iff of_nat_numeral of_nat_power)
  then have "real m \<le> 2 ^ b - 1"
    by (metis Suc_leI of_nat_Suc of_nat_le_iff of_nat_numeral of_nat_power le_diff_eq add.commute)
  then have "real m / 2 ^ b \<le> (2 ^ b - 1) / 2 ^ b"
    by (simp add: divide_right_mono)
  also have "\<dots> = 1 - 1 / 2 ^ b"
    by (simp add: diff_divide_distrib)
  also have "\<dots> \<le> 1 - 1 / 2 ^ 53"
  proof -
    have "(2::real) ^ b \<le> 2 ^ 53"
      using True by (intro power_increasing) simp_all
    then have "1 / (2::real) ^ 53 \<le> 1 / 2 ^ b"
      by (intro divide_left_mono) simp_all
    then show ?thesis by simp
  qed
  finally show ?thesis .
next
  case False
  then have "(2::real) ^ 54 \<le> 2 ^ b"
    by (intro power_increasing) simp_all
  moreover have "real m < 2 ^ 53"
    using assms(1) by (metis of_nat_less_iff of_nat_numeral of_nat_power)
  ultimately have "real m / 2 ^ b \<le> 2 ^ 53 / 2 ^ 54"
    by (intro frac_le) simp_all
  also have "(2::real) ^ 53 / 2 ^ 54 \<le> 1 - 1 / 2 ^ 53"
    by simp
  finally show ?thesis .
qed

lemma floor_times_double_range:
  assumes m: "m < 2 ^ 53" and x: "real m / 2 ^ b < 1" and n: "1 \<le> n" "n \<le> 2 ^ 52"
  shows "0 \<le> \<lfloor>times_double (real m / 2 ^ b) (real n)\<rfloor> \<and>
         \<lfloor>times_double (real m / 2 ^ b) (real n)\<rfloor> < int n"
proof -
  define p where "p = real m / 2 ^ b * real n"
  have p0: "0 \<le> p"
    by (simp add: p_def)
  have "real m / 2 ^ b * real n \<le> (1 - 1 / 2 ^ 53) * real n"
    using below_one_double [OF m x] by (intro mult_right_mono) simp_all
  then have pn: "p \<le> real n - real n / 2 ^ 53"
    by (simp add: p_def algebra_simps)
  have n1: "1 \<le> real n" "real n \<le> 2 ^ 52"
    using n by (simp, metis of_nat_le_iff of_nat_numeral of_nat_power)
  have td: "times_double (real m / 2 ^ b) (real n) = round_double p"
    by (simp add: times_double_def p_def)
  show ?thesis
  proof (cases "p = 0")
    case True
    then have "round_double p = 0"
      by (simp add: round_double_def)
    then show ?thesis
      using n td by simp
  next
    case False
    define u where "u = binade p / 2 ^ 52"
    have "\<exists>N::int. of_int N = real n / u \<and> 0 < u \<and> binade p < real n"
    proof (cases "1 \<le> p")
      case True
      obtain j where j: "binade_up p 0 = 2 ^ j"
        using binade_up_power by blast
      have le: "binade_up p 0 \<le> p"
        using True by (intro binade_up_le) simp
      have "p < real n"
        using pn n1 by (smt (verit) divide_pos_pos zero_less_power)
      with le j have lt: "(2::real) ^ j < 2 ^ 52"
        using n1 by linarith
      have "j < 52"
      proof (rule ccontr)
        assume "\<not> j < 52"
        then have "(2::real) ^ 52 \<le> 2 ^ j"
          by (intro power_increasing) simp_all
        with lt show False by linarith
      qed
      then have e: "(2::real) ^ 52 = 2 ^ (52 - j) * 2 ^ j"
        by (simp add: power_add [symmetric])
      have ueq: "u = 2 ^ j / 2 ^ 52"
        using True j by (simp add: u_def binade_def)
      have "real n / u = real n * (2 ^ 52 / 2 ^ j)"
        unfolding ueq by simp
      also have "(2::real) ^ 52 / 2 ^ j = 2 ^ (52 - j)"
        by (subst e) simp
      finally have "real n / u = real n * 2 ^ (52 - j)" .
      then have "of_int (int n * 2 ^ (52 - j)) = real n / u"
        by simp
      moreover have "0 < u"
        using True j by (simp add: u_def binade_def)
      moreover have "binade p < real n"
        using True le \<open>p < real n\<close> by (simp add: binade_def)
      ultimately show ?thesis by blast
    next
      case False
      obtain j where j: "binade_down p 1 = 1 / 2 ^ j" "1 \<le> j"
        using binade_down_power [of 1 p] by blast
      have "real n / u = real n * 2 ^ 52 * 2 ^ j"
        using False j by (simp add: u_def binade_def)
      then have "of_int (int n * 2 ^ 52 * 2 ^ j) = real n / u"
        by simp
      moreover have "0 < u"
        using False j by (simp add: u_def binade_def)
      moreover have "binade p < real n"
      proof -
        have "(1::real) / 2 ^ j \<le> 1 / 2 ^ 1"
          using j(2) by (intro divide_left_mono power_increasing) simp_all
        also have "\<dots> < 1"
          by simp
        finally have "(1::real) / 2 ^ j < real n"
          using n1 by linarith
        then show ?thesis
          using False j(1) by (simp only: binade_def if_False)
      qed
      ultimately show ?thesis by blast
    qed
    then obtain N :: int where N: "of_int N = real n / u" and u: "0 < u" and b: "binade p < real n"
      by blast
    have "u / 2 < real n / 2 ^ 53"
      using b by (simp add: u_def)
    with pn have "p < real n - u / 2"
      by simp
    then have "p / u < (real n - u / 2) / u"
      using u by (simp add: divide_strict_right_mono)
    also have "\<dots> = of_int N - 1 / 2"
      using u N by (simp add: diff_divide_distrib)
    finally have q: "p / u < of_int N - 1 / 2" .
    have hi: "round_half_even (p / u) \<le> N - 1"
      using q by (rule round_half_even_below)
    have lo: "0 \<le> round_half_even (p / u)"
      using p0 u by (intro round_half_even_nonneg) simp
    have rd: "round_double p = of_int (round_half_even (p / u)) * u"
      using False by (simp add: round_double_def u_def Let_def)
    have "of_int (round_half_even (p / u)) * u \<le> of_int (N - 1) * u"
      using hi u by (intro mult_right_mono) simp_all
    also have "\<dots> = real n - u"
      using N u by (simp add: algebra_simps)
    finally have "round_double p < real n"
      using rd u by simp
    moreover have "0 \<le> round_double p"
      using rd lo u by simp
    ultimately show ?thesis
      by (simp add: td floor_less_iff)
  qed
qed

lemma charAt_chars:
  assumes "m < 2 ^ 53" and "real m / 2 ^ b < 1"
  shows "\<exists>ch\<in>set chars. charAt chars \<lfloor>times_double (real m / 2 ^ b) (real (length chars))\<rfloor> = [ch]"
proof -
  let ?i = "\<lfloor>times_double (real m / 2 ^ b) (real (length chars))\<rfloor>"
  have "0 \<le> ?i \<and> ?i < int (length chars)"
    using assms by (intro floor_times_double_range) (simp_all add: length_chars)
  then have lo: "0 \<le> ?i" and hi: "?i < int (length chars)"
    by simp_all
  then have "nat ?i < length chars"
    by linarith
  then have "chars ! nat ?i \<in> set chars"
    by (rule nth_mem)
  moreover have "charAt chars ?i = [chars ! nat ?i]"
    using lo hi by (simp add: charAt_def)
  ultimately show ?thesis by blast
qed

lemma Math_random_unit:
  assumes "unit_random e" and "Math_random e s = (x, s')"
  shows "\<exists>m b. x = real m / 2 ^ b \<and> m < 2 ^ 53 \<and> real m / 2 ^ b < 1"
proof -
  obtain m b where mb: "random e (draws s) = (m, b)"
    by (cases "random e (draws s)")
  with assms(1) have "m < 2 ^ 53 \<and> real m / 2 ^ b < 1"
    by (auto simp: unit_random_def dest: spec [of _ "draws s"])
  moreover have "x = real m / 2 ^ b"
    using assms(2) mb by (simp add: Math_random_def)
  ultimately show ?thesis by blast
qed

lemma generateCode_loop_result:
  "unit_random e \<Longrightarrow> i \<le> len \<Longrightarrow>
   \<exists>r. fst (generateCode_loop e len i result s) = result @ r \<and>
       int (length r) = len - i \<and> set r \<subseteq> set chars"
proof (induction e len i result s rule: generateCode_loop.induct)
  case (1 e len i result s)
  show ?case
  proof (cases "i < len")
    case True
    obtain x s' where m: "Math_random e s = (x, s')"
      by (cases "Math_random e s")
    obtain ch where ch: "ch \<in> set chars"
        "charAt chars \<lfloor>times_double x (real (length chars))\<rfloor> = [ch]"
      using charAt_chars Math_random_unit [OF "1.prems"(1) m] by blast
    from "1.IH" [OF True refl m [symmetric] "1.prems"(1)] True
    obtain r where r: "fst (generateCode_loop e len (i + 1)
          (result @ charAt chars \<lfloor>times_double x (real (length chars))\<rfloor>) s') =
        (result @ charAt chars \<lfloor>times_double x (real (length chars))\<rfloor>) @ r"
      "int (length r) = len - (i + 1)" "set r \<subseteq> set chars"
      by auto
    have "fst (generateCode_loop e len i result s) = result @ (ch # r)"
      using True m r(1) ch(2) by (subst generateCode_loop.simps) simp
    moreover have "int (length (ch # r)) = len - i"
      using r(2) by simp
    moreover have "set (ch # r) \<subseteq> set chars"
      using r(3) ch(1) by simp
    ultimately show ?thesis by blast
  next
    case False
    with "1.prems" have "i = len" by simp
    then show ?thesis
      by (subst generateCode_loop.simps) simp
  qed
qed

lemma generateCode_valid:
  assumes "unit_random e"
  shows "isValidCode (fst (generateCode e s))"
proof -
  obtain x s' where m: "Math_random e s = (x, s')"
    by (cases "Math_random e s")
  obtain k b where x: "x = real k / 2 ^ b" "k < 2 ^ 53" "real k / 2 ^ b < 1"
    using Math_random_unit [OF assms m] by blast
  let ?len = "6 + \<lfloor>times_double x 3\<rfloor>"
  have "0 \<le> \<lfloor>times_double (real k / 2 ^ b) (real 3)\<rfloor> \<and>
      \<lfloor>times_double (real k / 2 ^ b) (real 3)\<rfloor> < int 3"
    using x(2,3) by (intro floor_times_double_range) simp_all
  then have len: "6 \<le> ?len" "?len \<le> 8"
    using x(1) by simp_all
  obtain r where r: "fst (generateCode_loop e ?len 0 [] s') = [] @ r"
      "int (length r) = ?len - 0" "set r \<subseteq> set chars"
    using generateCode_loop_result [OF assms, of 0 ?len "[]" s'] len by auto
  have g: "fst (generateCode e s) = r"
    using m r(1) by (simp add: generateCode_def)
  have "6 \<le> length r \<and> length r \<le> 8"
    using r(2) len by linarith
  then show ?thesis
    using r(3) g
    by (auto simp: isValidCode_format matches_code_format_def list_all_iff alphanumeric_def)
qed

lemma after_generated_table: "same_table s (after_generated e k s)"
proof (induction k arbitrary: s)
  case 0
  show ?case by (simp add: same_table_refl)
next
  case (Suc k)
  show ?case
    using generateCode_table [of s e] Suc [of "snd (generateCode e s)"]
    by (auto intro: same_table_trans)
qed

lemma nth_generated_Suc:
  "nth_generated e s (Suc k) = nth_generated e (snd (generateCode e s)) k"
  by (simp add: nth_generated_def)

lemma generateUniqueCode_loop_found:
  "attempts + k < 10 \<Longrightarrow>
   select_by_code s (nth_generated e s k) = [] \<Longrightarrow>
   (\<forall>j<k. select_by_code s (nth_generated e s j) \<noteq> []) \<Longrightarrow>
   generateUniqueCode_loop e attempts s =
     (Inr (nth_generated e s k), after_generated e (Suc k) s)"
proof (induction k arbitrary: attempts s)
  case 0
  obtain c s' where g: "generateCode e s = (c, s')"
    by (cases "generateCode e s")
  have "select_by_code s' c = select_by_code s c"
    using generateCode_table [of s e] g by (simp add: same_table_select)
  then show ?case
    using 0 g by (subst generateUniqueCode_loop.simps) (simp add: nth_generated_def)
next
  case (Suc k)
  obtain c s' where g: "generateCode e s = (c, s')"
    by (cases "generateCode e s")
  have t: "same_table s s'"
    using generateCode_table [of s e] g by simp
  have taken: "select_by_code s' c \<noteq> []"
    using Suc.prems(3) [rule_format, of 0] g t by (simp add: nth_generated_def same_table_select)
  have "generateUniqueCode_loop e (attempts + 1) s' =
      (Inr (nth_generated e s' k), after_generated e (Suc k) s')"
  proof (rule Suc.IH)
    show "attempts + 1 + k < 10"
      using Suc.prems(1) by simp
    show "select_by_code s' (nth_generated e s' k) = []"
      using Suc.prems(2) g t by (simp add: nth_generated_Suc same_table_select)
    show "\<forall>j<k. select_by_code s' (nth_generated e s' j) \<noteq> []"
    proof (intro allI impI)
      fix j assume "j < k"
      then have "select_by_code s (nth_generated e s (Suc j)) \<noteq> []"
        using Suc.prems(3) by simp
      then show "select_by_code s' (nth_generated e s' j) \<noteq> []"
        using g t by (simp add: nth_generated_Suc same_table_select)
    qed
  qed
  then show ?case
    using Suc.prems(1) g taken
    by (subst generateUniqueCode_loop.simps) (simp add: nth_generated_Suc)
qed

lemma generateUniqueCode_loop_exhausted:
  "attempts + n = 10 \<Longrightarrow>
   (\<forall>j<n. select_by_code s (nth_generated e s j) \<noteq> []) \<Longrightarrow>
   generateUniqueCode_loop e attempts s = (Inl ExhaustedAttempts, after_generated e n s)"
proof (induction n arbitrary: attempts s)
  case 0
  then show ?case
    by (subst generateUniqueCode_loop.simps) simp
next
  case (Suc n)
  obtain c s' where g: "generateCode e s = (c, s')"
    by (cases "generateCode e s")
  have t: "same_table s s'"
    using generateCode_table [of s e] g by simp
  have taken: "select_by_code s' c \<noteq> []"
    using Suc.prems(2) [rule_format, of 0] g t by (simp add: nth_generated_def same_table_select)
  have "generateUniqueCode_loop e (attempts + 1) s' =
      (Inl ExhaustedAttempts, after_generated e n s')"
  proof (rule Suc.IH)
    show "attempts + 1 + n = 10"
      using Suc.prems(1) by simp
    show "\<forall>j<n. select_by_code s' (nth_generated e s' j) \<noteq> []"
    proof (intro allI impI)
      fix j assume "j < n"
      then have "select_by_code s (nth_generated e s (Suc j)) \<noteq> []"
        using Suc.prems(2) by simp
      then show "select_by_code s' (nth_generated e s' j) \<noteq> []"
        using g t by (simp add: nth_generated_Suc same_table_select)
    qed
  qed
  then show ?case
    using Suc.prems(1) g taken
    by (subst generateUniqueCode_loop.simps) simp
qed


definition stuck_env :: env where
  "stuck_env = example_env\<lparr>random := (\<lambda>n. (1, 1))\<rparr>"

definition stuck_state :: state where
  "stuck_state = \<lparr>links = [example_row\<lparr>code := ''fffffff''\<rparr>], links_id_seq = 2, draws = 0\<rparr>"

definition retry_state :: state where
  "retry_state = \<lparr>links = [example_row\<lparr>code := ''mDf6Xy''\<rparr>], links_id_seq = 2, draws = 0\<rparr>"



lemma stuck_generate: "generateCode stuck_env s = (''fffffff'', s\<lparr>draws := draws s + 8\<rparr>)"
  by (simp add: generateCode_def Math_random_def stuck_env_def example_env_def
      generateCode_loop.simps charAt_def chars_def times_double_def round_double_def binade_def
      binade_up.simps binade_down.simps round_half_even_def Let_def)

lemma unit_random_example: "unit_random example_env"
proof -
  have "real ((7 * n + 3) mod 16) / 2 ^ 4 < 1" for n :: nat
  proof -
    have "(7 * n + 3) mod 16 < 16"
      by simp
    then have "real ((7 * n + 3) mod 16) < 16"
      by (metis of_nat_less_iff of_nat_numeral)
    then show ?thesis by simp
  qed
  moreover have "(7 * n + 3) mod 16 < 2 ^ 53" for n :: nat
  proof -
    have "(7 * n + 3) mod 16 < 16"
      by simp
    also have "(16::nat) < 2 ^ 53"
      by simp
    finally show ?thesis .
  qed
  ultimately show ?thesis
    by (simp add: unit_random_def example_env_def)
qed

lemma example_generate_0:
  "generateCode example_env (s\<lparr>draws := 0\<rparr>) = (''mDf6Xy'', s\<lparr>draws := 7\<rparr>)"
  by (simp add: generateCode_def Math_random_def example_env_def
      generateCode_loop.simps charAt_def chars_def times_double_def round_double_def binade_def
      binade_up.simps binade_down.simps round_half_even_def Let_def)

lemma example_generate_1:
  "generateCode example_env (s\<lparr>draws := 7\<rparr>) = (''qHiAb2'', s\<lparr>draws := 14\<rparr>)"
  by (simp add: generateCode_def Math_random_def example_env_def
      generateCode_loop.simps charAt_def chars_def times_double_def round_double_def binade_def
      binade_up.simps binade_down.simps round_half_even_def Let_def)

lemma retry_generated:
  "nth_generated example_env retry_state 0 = ''mDf6Xy''"
  "nth_generated example_env retry_state 1 = ''qHiAb2''"
  "after_generated example_env (Suc 1) retry_state = retry_state\<lparr>draws := 14\<rparr>"
  using example_generate_0 [of retry_state] example_generate_1 [of retry_state]
  by (simp_all add: nth_generated_def retry_state_def)

lemma stuck_after: "after_generated stuck_env n s = s\<lparr>draws := draws s + 8 * n\<rparr>"
  by (induction n arbitrary: s) (simp_all add: stuck_generate)

lemma stuck_generated: "nth_generated stuck_env s j = ''fffffff''"
  by (simp add: nth_generated_def stuck_generate)

text \<open>
  C4, counterexample: the empty string. It is a code of the request that fails
  \<open>isValidCode\<close>, and the allocation does not end with \<open>InvalidFormat\<close> but returns a
  generated code, because the handler takes the empty string for no code.
\<close>

theorem allocateUnique_empty_string:
  "\<not> isValidCode [] \<and>
   allocateUnique example_env (Some (JString [])) init_state =
     (Inr ''mDf6Xy'', init_state\<lparr>draws := 7\<rparr>)"
  using example_generate_0 [of init_state]
  by (simp add: isValidCode_format matches_code_format_def generateUniqueCode_def
      generateUniqueCode_loop.simps select_by_code_def init_state_def)

text \<open>
  C4. A code string that is not empty and fails \<open>isValidCode\<close> ends the allocation with
  \<open>InvalidFormat\<close>; a valid code already stored ends it with \<open>Collision\<close>; a valid code
  not stored is the result. Without a code of the request (absent, or a value that counts
  as false, as the empty string does), the generator is called until a code is not
  stored: if the call number \<open>k\<close>, with \<open>k < 10\<close>, is the first to give a code that is
  not stored, that code is the result after exactly \<open>k + 1\<close> calls; if the first ten
  calls all give stored codes, the allocation ends with \<open>ExhaustedAttempts\<close> after exactly
  ten calls. Every generated code passes \<open>isValidCode\<close> when \<^verbatim>\<open>Math.random\<close> keeps its
  contract, the products being rounded as doubles are.
\<close>

theorem allocateUnique_outcomes:
  "(c \<noteq> [] \<and> \<not> isValidCode c \<longrightarrow>
      allocateUnique e (Some (JString c)) s = (Inl InvalidFormat, s)) \<and>
   (isValidCode c \<and> stored_link s c \<noteq> None \<longrightarrow>
      allocateUnique e (Some (JString c)) s = (Inl Collision, s)) \<and>
   (isValidCode c \<and> stored_link s c = None \<longrightarrow>
      allocateUnique e (Some (JString c)) s = (Inr c, s)) \<and>
   (\<not> js_truthy p \<and> k < 10 \<and> stored_link s (nth_generated e s k) = None \<and>
    (\<forall>j<k. stored_link s (nth_generated e s j) \<noteq> None) \<longrightarrow>
      allocateUnique e p s = (Inr (nth_generated e s k), after_generated e (Suc k) s)) \<and>
   (\<not> js_truthy p \<and> (\<forall>j<10. stored_link s (nth_generated e s j) \<noteq> None) \<longrightarrow>
      allocateUnique e p s = (Inl ExhaustedAttempts, after_generated e 10 s)) \<and>
   (unit_random e \<longrightarrow> isValidCode (nth_generated e s k))"
proof (intro conjI impI)
  assume "c \<noteq> [] \<and> \<not> isValidCode c"
  then show "allocateUnique e (Some (JString c)) s = (Inl InvalidFormat, s)"
    by simp
next
  assume "isValidCode c \<and> stored_link s c \<noteq> None"
  then show "allocateUnique e (Some (JString c)) s = (Inl Collision, s)"
    using isValidCode_nonempty [of c] by (simp add: stored_link_None)
next
  assume "isValidCode c \<and> stored_link s c = None"
  then show "allocateUnique e (Some (JString c)) s = (Inr c, s)"
    using isValidCode_nonempty [of c] by (simp add: stored_link_None)
next
  assume a: "\<not> js_truthy p \<and> k < 10 \<and> stored_link s (nth_generated e s k) = None \<and>
    (\<forall>j<k. stored_link s (nth_generated e s j) \<noteq> None)"
  then have "allocateUnique e p s = generateUniqueCode e s"
    by (cases p) simp_all
  also have "\<dots> = (Inr (nth_generated e s k), after_generated e (Suc k) s)"
    unfolding generateUniqueCode_def
    using a by (intro generateUniqueCode_loop_found) (simp_all add: stored_link_None)
  finally show "allocateUnique e p s = (Inr (nth_generated e s k), after_generated e (Suc k) s)" .
next
  assume a: "\<not> js_truthy p \<and> (\<forall>j<10. stored_link s (nth_generated e s j) \<noteq> None)"
  then have "allocateUnique e p s = generateUniqueCode e s"
    by (cases p) simp_all
  also have "\<dots> = (Inl ExhaustedAttempts, after_generated e 10 s)"
    unfolding generateUniqueCode_def
    using a by (intro generateUniqueCode_loop_exhausted) (simp_all add: stored_link_None)
  finally show "allocateUnique e p s = (Inl ExhaustedAttempts, after_generated e 10 s)" .
next
  assume "unit_random e"
  then show "isValidCode (nth_generated e s k)"
    by (simp add: nth_generated_def generateCode_valid)
qed

theorem allocateUnique_outcomes_witness:
  "\<not> isValidCode ''abc-123'' \<and>
   allocateUnique example_env (Some (JString ''abc-123'')) example_state =
     (Inl InvalidFormat, example_state) \<and>
   isValidCode ''abc123'' \<and> stored_link example_state ''abc123'' \<noteq> None \<and>
   allocateUnique example_env (Some (JString ''abc123'')) example_state =
     (Inl Collision, example_state) \<and>
   stored_link init_state ''abc123'' = None \<and>
   allocateUnique example_env (Some (JString ''abc123'')) init_state = (Inr ''abc123'', init_state) \<and>
   stored_link retry_state ''mDf6Xy'' \<noteq> None \<and> stored_link retry_state ''qHiAb2'' = None \<and>
   allocateUnique example_env None retry_state = (Inr ''qHiAb2'', retry_state\<lparr>draws := 14\<rparr>) \<and>
   stored_link stuck_state ''fffffff'' \<noteq> None \<and>
   allocateUnique stuck_env (Some (JString [])) stuck_state =
     (Inl ExhaustedAttempts, stuck_state\<lparr>draws := 80\<rparr>) \<and>
   unit_random example_env \<and> isValidCode ''qHiAb2''"
  using allocateUnique_outcomes [where c = "''abc-123''" and e = example_env and s = example_state]
    allocateUnique_outcomes [where c = "''abc123''" and e = example_env and s = example_state]
    allocateUnique_outcomes [where c = "''abc123''" and e = example_env and s = init_state]
    allocateUnique_outcomes [where p = None and e = example_env and s = retry_state and k = 1]
    allocateUnique_outcomes [where p = "Some (JString [])" and e = stuck_env and s = stuck_state]
    example_code_valid example_code_invalid unit_random_example retry_generated
  by (simp add: stuck_generated stuck_after stored_link_def select_by_code_def
      example_state_def example_row_def init_state_def retry_state_def stuck_state_def)

subsection \<open>Bodies the handler takes although they are malformed\<close>

text \<open>
  The 400 answers of the POST handler for any JSON values: a url that is absent, counts
  as false, or whose string fails \<open>isValidUrl\<close>; and, the url being taken, a code that
  counts as true and whose string fails \<open>isValidCode\<close>.
\<close>

lemma post_api_links_invalid_url:
  assumes "raw_url b = None \<or> \<not> js_truthy (raw_url b) \<or>
    (\<exists>u. raw_url b = Some u \<and> (js_String e u = None \<or>
       (\<exists>str. js_String e u = Some str \<and> \<not> isValidUrl e str)))"
  shows "post_api_links e now b s = (BadRequest ''Invalid URL'', s)"
  using assms by (auto simp: post_api_links_def split: option.splits)

lemma post_api_links_valid_url:
  assumes "raw_url b = Some u" and "js_truthy (Some u)" and "js_String e u = Some str"
    and "isValidUrl e str"
  shows "post_api_links e now b s =
     (case allocateUnique e (raw_code b) s of
        (Inl err, s1) \<Rightarrow> (alloc_error_response err, s1)
      | (Inr finalCode, s1) \<Rightarrow>
          (case insert_link now finalCode (pg_text e u) s1 of
             (Inl err, s2) \<Rightarrow> (insert_error_response err, s2)
           | (Inr row, s2) \<Rightarrow> (Created (link_to_json e row), s2)))"
  using assms by (simp add: post_api_links_def)

lemma post_api_links_invalid_code:
  assumes "raw_url b = Some u" and "js_truthy (Some u)" and "js_String e u = Some str"
    and "isValidUrl e str"
    and "raw_code b = Some v" and "js_truthy (Some v)" and "js_String e v = Some c"
    and "\<not> isValidCode c"
  shows "post_api_links e now b s = (BadRequest ''Invalid code format'', s)"
  using assms by (simp add: post_api_links_valid_url)



subsection \<open>The constraints of the schema in every execution\<close>

text \<open>
  Every statement the handlers send keeps the constraints of the schema, which the backend
  enforces. So the constraints hold after every handler and after every step of a
  schedule, whatever the order of the statements.
\<close>

lemma init_state_constraints: "constraints init_state" "counts_nonneg init_state"
  by (simp_all add: constraints_def counts_nonneg_def init_state_def)

lemma same_table_constraints: "same_table s s' \<Longrightarrow> constraints s \<Longrightarrow> constraints s'"
  by (simp add: same_table_def constraints_def)

lemma insert_link_constraints:
  assumes "constraints s"
  shows "constraints (snd (insert_link now c u s))"
proof (cases "select_by_code s c = []")
  case True
  then have "c \<notin> code ` set (links s)"
    by (auto simp: select_by_code_def filter_empty_conv)
  moreover have "links_id_seq s \<notin> link_id ` set (links s)"
    using assms by (auto simp: constraints_def list_all_iff)
  ultimately show ?thesis
    using assms True by (auto simp: insert_link_free constraints_def list_all_iff)
next
  case False
  then show ?thesis
    using assms by (auto simp: insert_link_taken constraints_def list_all_iff)
qed

lemma delete_by_code_constraints: "constraints s \<Longrightarrow> constraints (snd (delete_by_code c s))"
  by (auto simp: delete_by_code_def constraints_def list_all_iff distinct_map_filter)

lemma set_click_constraints:
  assumes "constraints s"
  shows "constraints (set_click now n i s)"
proof -
  let ?f = "\<lambda>r. if link_id r = i then r\<lparr>click_count := n, last_clicked_at := Some now\<rparr> else r"
  have ids: "map link_id (map ?f (links s)) = map link_id (links s)"
    by simp
  have codes: "map code (map ?f (links s)) = map code (links s)"
    by simp
  have bound: "list_all (\<lambda>r. link_id r < links_id_seq s) (map ?f (links s))"
    using assms by (auto simp: constraints_def list_all_iff)
  have "links (set_click now n i s) = map ?f (links s)"
    "links_id_seq (set_click now n i s) = links_id_seq s"
    by (simp_all add: set_click_def)
  then show ?thesis
    using assms ids codes bound by (simp only: constraints_def)
qed

lemma post_api_links_constraints:
  assumes "constraints s"
  shows "constraints (snd (post_api_links e now b s))"
proof (cases "raw_url b = None \<or> \<not> js_truthy (raw_url b) \<or>
    (\<exists>u. raw_url b = Some u \<and> (js_String e u = None \<or>
       (\<exists>str. js_String e u = Some str \<and> \<not> isValidUrl e str)))")
  case True
  then show ?thesis
    using assms by (simp add: post_api_links_invalid_url)
next
  case False
  then obtain u str where u: "raw_url b = Some u" "js_truthy (Some u)"
      "js_String e u = Some str" "isValidUrl e str"
    by auto
  obtain r s1 where a: "allocateUnique e (raw_code b) s = (r, s1)"
    by (cases "allocateUnique e (raw_code b) s")
  have s1: "constraints s1"
    using allocateUnique_table [of s e "raw_code b"] a assms
    by (auto intro: same_table_constraints)
  show ?thesis
  proof (cases r)
    case (Inl err)
    then show ?thesis
      using a s1 by (simp add: post_api_links_valid_url [OF u])
  next
    case (Inr c)
    obtain q s2 where i: "insert_link now c (pg_text e u) s1 = (q, s2)"
      by (cases "insert_link now c (pg_text e u) s1")
    have "constraints s2"
      using insert_link_constraints [OF s1, of now c "pg_text e u"] i by simp
    then show ?thesis
      using a Inr i by (cases q) (simp_all add: post_api_links_valid_url [OF u])
  qed
qed

lemma post_links_constraints: "constraints s \<Longrightarrow> constraints (snd (post_links e now b s))"
  by (simp add: post_links_def post_api_links_constraints)

lemma delete_link_constraints: "constraints s \<Longrightarrow> constraints (snd (delete_link c s))"
  by (simp add: delete_link_state delete_by_code_constraints)

lemma task_step_constraints: "constraints s \<Longrightarrow> constraints (snd (task_step now t s))"
  by (cases t)
    (auto simp: update_click_def set_click_constraints split: list.splits)

lemma recordClickAndResolve_constraints:
  "constraints s \<Longrightarrow> constraints (snd (recordClickAndResolve now c s))"
  by (auto simp: recordClickAndResolve_def update_click_def set_click_constraints
      split: list.splits)

lemma run_schedule_constraints:
  "constraints s \<Longrightarrow> constraints (snd (run_schedule sched ts s))"
proof (induction sched arbitrary: ts s)
  case Nil
  then show ?case by simp
next
  case (Cons step sched)
  obtain i now where step: "step = (i, now)"
    by (cases step)
  show ?case
  proof (cases "i < length ts")
    case True
    obtain t' s' where t: "task_step now (ts ! i) s = (t', s')"
      by (cases "task_step now (ts ! i) s")
    then have "constraints s'"
      using task_step_constraints [OF Cons.prems, of now "ts ! i"] by simp
    then show ?thesis
      using step True t Cons.IH [of s' "ts[i := t']"] by simp
  next
    case False
    then show ?thesis
      using step Cons by simp
  qed
qed

text \<open>
  The same for every execution at once. Whatever the handlers do and in whatever order
  their statements reach the backend, the table changes only by the statements they
  send; a sequence of such statements with any parameters, from the empty table, keeps
  the constraints.
\<close>

datatype statement =
    Insert timestamp string string
  | Delete string
  | Update timestamp int nat

fun execute :: "statement \<Rightarrow> state \<Rightarrow> state" where
  "execute (Insert now c u) s = snd (insert_link now c u s)"
| "execute (Delete c) s = snd (delete_by_code c s)"
| "execute (Update now n i) s =
     (case update_click now n i s of Inl err \<Rightarrow> s | Inr s' \<Rightarrow> s')"

lemma execute_constraints: "constraints s \<Longrightarrow> constraints (execute q s)"
  by (cases q)
    (simp_all add: insert_link_constraints delete_by_code_constraints update_click_def
      set_click_constraints)

lemma statements_constraints: "constraints s \<Longrightarrow> constraints (fold execute qs s)"
  by (induction qs arbitrary: s) (simp_all add: execute_constraints)

lemma reachable_constraints: "constraints (fold execute qs init_state)"
  by (simp add: statements_constraints init_state_constraints)

text \<open>
  The counters stay at 0 or above in every schedule of redirects, when they are so in the
  table and in the rows the tasks have read already.
\<close>

fun task_nonneg :: "task \<Rightarrow> bool" where
  "task_nonneg (AwaitUpdate link) = (0 \<le> sel_click_count link)"
| "task_nonneg t = True"

lemma set_click_counts_nonneg:
  "0 \<le> n \<Longrightarrow> counts_nonneg s \<Longrightarrow> counts_nonneg (set_click now n i s)"
  by (auto simp: counts_nonneg_def set_click_def list_all_iff)

lemma task_step_counts_nonneg:
  assumes "counts_nonneg s" and "task_nonneg t"
  shows "counts_nonneg (snd (task_step now t s)) \<and> task_nonneg (fst (task_step now t s))"
proof (cases t)
  case (AwaitSelect c)
  show ?thesis
  proof (cases "select_click s c")
    case Nil
    with AwaitSelect assms(1) show ?thesis by simp
  next
    case (Cons link rest)
    then have "link \<in> set (select_click s c)"
      by simp
    then have "0 \<le> sel_click_count link"
      using assms(1)
      by (auto simp: select_click_def select_by_code_def counts_nonneg_def list_all_iff)
    with AwaitSelect Cons assms(1) show ?thesis by simp
  qed
next
  case (AwaitUpdate link)
  then have "0 \<le> sel_click_count link + 1"
    using assms(2) by simp
  then show ?thesis
    using AwaitUpdate assms(1) by (simp add: update_click_def set_click_counts_nonneg)
next
  case (Done r)
  with assms(1) show ?thesis by simp
qed

lemma run_schedule_counts_nonneg:
  "counts_nonneg s \<Longrightarrow> list_all task_nonneg ts \<Longrightarrow>
   counts_nonneg (snd (run_schedule sched ts s))"
proof (induction sched arbitrary: ts s)
  case Nil
  then show ?case by simp
next
  case (Cons step sched)
  obtain i now where step: "step = (i, now)"
    by (cases step)
  show ?case
  proof (cases "i < length ts")
    case True
    obtain t' s' where t: "task_step now (ts ! i) s = (t', s')"
      by (cases "task_step now (ts ! i) s")
    have "task_nonneg (ts ! i)"
      using Cons.prems(2) True by (simp add: list_all_length)
    then have "counts_nonneg s' \<and> task_nonneg t'"
      using task_step_counts_nonneg [OF Cons.prems(1), of "ts ! i" now] t by simp
    moreover from this have "list_all task_nonneg (ts[i := t'])"
      using Cons.prems(2) by (auto simp: list_all_iff dest: subsetD [OF set_update_subset_insert])
    ultimately show ?thesis
      using step True t Cons.IH [of s' "ts[i := t']"] by simp
  next
    case False
    then show ?thesis
      using step Cons by simp
  qed
qed

text \<open>
  A schedule of redirects adds no row, removes none, and changes only \<open>click_count\<close> and
  \<open>last_clicked_at\<close>: the ids, codes, urls and \<open>created_at\<close> of the table stay.
\<close>

definition fixed_columns :: "state \<Rightarrow> (nat \<times> string \<times> string \<times> timestamp) list" where
  "fixed_columns s = map (\<lambda>r. (link_id r, code r, url r, created_at r)) (links s)"

lemma set_click_fixed_columns: "fixed_columns (set_click now n i s) = fixed_columns s"
  by (simp add: fixed_columns_def set_click_def)

lemma task_step_fixed_columns: "fixed_columns (snd (task_step now t s)) = fixed_columns s"
  by (cases t)
    (auto simp: update_click_def set_click_fixed_columns split: list.splits)

lemma run_schedule_fixed_columns:
  "fixed_columns (snd (run_schedule sched ts s)) = fixed_columns s"
proof (induction sched arbitrary: ts s)
  case Nil
  then show ?case by simp
next
  case (Cons step sched)
  obtain i now where step: "step = (i, now)"
    by (cases step)
  show ?case
  proof (cases "i < length ts")
    case True
    obtain t' s' where t: "task_step now (ts ! i) s = (t', s')"
      by (cases "task_step now (ts ! i) s")
    then have "fixed_columns s' = fixed_columns s"
      using task_step_fixed_columns [of now "ts ! i" s] by simp
    then show ?thesis
      using step True t Cons.IH [of "ts[i := t']" s'] by simp
  next
    case False
    then show ?thesis
      using step Cons by simp
  qed
qed

subsection \<open>Two redirects in flight together\<close>

text \<open>
  A task scheduled twice on its own is the handler \<open>recordClickAndResolve\<close>.
\<close>

lemma task_alone:
  "run_schedule [(0, t), (0, now)] [AwaitSelect c] s =
     ([Done (fst (recordClickAndResolve now c s))], snd (recordClickAndResolve now c s))"
  by (cases "select_click s c") (simp_all add: recordClickAndResolve_def split: sum.splits)

lemma select_click_stored:
  "stored_link s c = Some row \<Longrightarrow>
   \<exists>rest. select_click s c =
     \<lparr>sel_id = link_id row, sel_url = url row, sel_click_count = click_count row\<rparr> # rest"
  by (auto simp: stored_link_Some select_click_def)

text \<open>
  Two redirects of a stored code, the counter staying inside the \<^verbatim>\<open>INTEGER\<close> column:
  when the second starts after the first has finished, the counter is two higher; when
  both SELECTs are executed before the first UPDATE, both requests are answered 302 and
  the counter is one higher only.
\<close>

lemma redirects_one_after_the_other:
  assumes "stored_link s c = Some row"
    and "in_integer (click_count row + 1)" and "in_integer (click_count row + 2)"
  shows "\<exists>s'. run_schedule [(0, t1), (0, t2), (1, t3), (1, t4)] [AwaitSelect c, AwaitSelect c] s =
           ([Done (Redirect (url row)), Done (Redirect (url row))], s') \<and>
         stored_link s' c = Some (row\<lparr>click_count := click_count row + 2, last_clicked_at := Some t4\<rparr>)"
proof -
  obtain rest where sel: "select_by_code s c = row # rest"
    using assms(1) by (auto simp: stored_link_Some)
  show ?thesis
    using assms
    by (simp add: select_click_def sel update_click_def select_by_code_set_click stored_link_def
        in_integer_def)
qed

lemma redirects_interleaved:
  assumes "stored_link s c = Some row" and "in_integer (click_count row + 1)"
  shows "\<exists>s'. run_schedule [(0, t1), (1, t2), (0, t3), (1, t4)] [AwaitSelect c, AwaitSelect c] s =
           ([Done (Redirect (url row)), Done (Redirect (url row))], s') \<and>
         stored_link s' c = Some (row\<lparr>click_count := click_count row + 1, last_clicked_at := Some t4\<rparr>)"
proof -
  obtain rest where sel: "select_by_code s c = row # rest"
    using assms(1) by (auto simp: stored_link_Some)
  show ?thesis
    using assms
    by (simp add: select_click_def sel update_click_def select_by_code_set_click stored_link_def
        in_integer_def)
qed

text \<open>
  C1. The redirect handler does not record a click in one atomic step. On the table
  holding \<^verbatim>\<open>abc123\<close> with \<open>click_count\<close> 0, two redirects of \<^verbatim>\<open>abc123\<close> in flight
  together, their statements executed in the order SELECT, SELECT, UPDATE, UPDATE, are
  both answered 302, and \<open>click_count\<close> is 1 afterwards, not 2: one click is lost.
\<close>

theorem concurrent_redirects_lose_a_click:
  "run_schedule [(0, 7), (1, 8), (0, 9), (1, 10)]
     [AwaitSelect ''abc123'', AwaitSelect ''abc123''] example_state =
     ([Done (Redirect ''https://example.com/a''), Done (Redirect ''https://example.com/a'')],
      example_state\<lparr>links := [example_row\<lparr>click_count := 1, last_clicked_at := Some 10\<rparr>]\<rparr>) \<and>
   click_count example_row = 0"
  by (simp add: select_click_def select_by_code_def update_click_def set_click_def
      in_integer_def example_state_def example_row_def)

subsection \<open>Three redirects in flight together\<close>

definition three_redirects :: "task list" where
  "three_redirects = [AwaitSelect ''abc123'', AwaitSelect ''abc123'', AwaitSelect ''abc123'']"

text \<open>
  C9. The counter of a link that stays in the table can go down. On the table holding
  \<^verbatim>\<open>abc123\<close> with \<open>click_count\<close> 0, three redirects of \<^verbatim>\<open>abc123\<close> are in flight together.
  The first reads the counter; the second and the third then each read and write, which
  takes the counter to 1 and to 2; the first then writes what it read plus one, and the
  counter of the same row, 2 before, is 1. All three requests are answered 302.
\<close>

theorem concurrent_redirects_lower_the_counter:
  "map click_count (links (snd (run_schedule [(0, 6), (1, 7), (1, 8), (2, 9), (2, 10)]
      three_redirects example_state))) = [2] \<and>
   map click_count (links (snd (run_schedule [(0, 6), (1, 7), (1, 8), (2, 9), (2, 10), (0, 11)]
      three_redirects example_state))) = [1] \<and>
   map link_id (links (snd (run_schedule [(0, 6), (1, 7), (1, 8), (2, 9), (2, 10), (0, 11)]
      three_redirects example_state))) = map link_id (links example_state) \<and>
   fst (run_schedule [(0, 6), (1, 7), (1, 8), (2, 9), (2, 10), (0, 11)]
      three_redirects example_state) =
     [Done (Redirect ''https://example.com/a''), Done (Redirect ''https://example.com/a''),
      Done (Redirect ''https://example.com/a'')]"
  by (simp add: three_redirects_def select_click_def select_by_code_def update_click_def
      set_click_def in_integer_def example_state_def example_row_def)

end
